theory Spec2Isabelle
  imports Main "HOL-Library.Sublist"
begin

section \<open>Calendar dates of the Python standard library\<close>

text \<open>
  Both scripts work on \<^verbatim>\<open>datetime.date\<close> values. A date is represented here by its
  proleptic Gregorian ordinal (\<^verbatim>\<open>date.toordinal()\<close>): 0001-01-01 is day 1 and
  9999-12-31 is day 3652059. Comparison of dates is comparison of ordinals, and the
  difference of two dates in days is the difference of their ordinals. The library
  refuses to build a date outside that range: the constructor raises
  \<^verbatim>\<open>ValueError\<close>, date arithmetic raises \<^verbatim>\<open>OverflowError\<close>.
\<close>

datatype py_error = ValueError | OverflowError

type_synonym date = int

definition MINYEAR :: int where
  "MINYEAR = 1"

definition MAXYEAR :: int where
  "MAXYEAR = 9999"

definition MAXORDINAL :: int where
  "MAXORDINAL = 3652059"

definition valid_date :: "date \<Rightarrow> bool" where
  "valid_date d = (0 < d \<and> d \<le> MAXORDINAL)"

text \<open>\<^verbatim>\<open>year % 4 == 0 and (year % 100 != 0 or year % 400 == 0)\<close>\<close>

definition is_leap :: "int \<Rightarrow> bool" where
  "is_leap year = (year mod 4 = 0 \<and> (year mod 100 \<noteq> 0 \<or> year mod 400 = 0))"

text \<open>Number of days before January 1st of \<open>year\<close>.\<close>

definition days_before_year :: "int \<Rightarrow> int" where
  "days_before_year year =
     (let y = year - 1 in y * 365 + y div 4 - y div 100 + y div 400)"

definition days_in_month :: "int \<Rightarrow> int \<Rightarrow> int" where
  "days_in_month year month =
     (if month = 2 \<and> is_leap year then 29
      else [31, 28, 31, 30, 31, 30, 31, 31, 30, 31, 30, 31] ! nat (month - 1))"

text \<open>Number of days in \<open>year\<close> before the first day of \<open>month\<close>.\<close>

definition days_before_month :: "int \<Rightarrow> int \<Rightarrow> int" where
  "days_before_month year month =
     [0, 31, 59, 90, 120, 151, 181, 212, 243, 273, 304, 334] ! nat (month - 1)
       + (if 2 < month \<and> is_leap year then 1 else 0)"

text \<open>
  The constructor takes its arguments as C integers: a Python integer that does not fit
  in 32 bits is refused with \<^verbatim>\<open>OverflowError\<close> before any field is checked.
\<close>

definition fits_c_int :: "int \<Rightarrow> bool" where
  "fits_c_int n = (- 2147483648 \<le> n \<and> n \<le> 2147483647)"

text \<open>
  \<^verbatim>\<open>datetime.date(year, month, day)\<close>: the fields are checked, and the date built is
  the one with ordinal \<open>days_before_year + days_before_month + day\<close>.
\<close>

definition date_ymd :: "int \<Rightarrow> int \<Rightarrow> int \<Rightarrow> py_error + date" where
  "date_ymd year month day =
     (if \<not> (fits_c_int year \<and> fits_c_int month \<and> fits_c_int day) then Inl OverflowError
      else if \<not> (MINYEAR \<le> year \<and> year \<le> MAXYEAR) then Inl ValueError
      else if \<not> (1 \<le> month \<and> month \<le> 12) then Inl ValueError
      else if \<not> (1 \<le> day \<and> day \<le> days_in_month year month) then Inl ValueError
      else Inr (days_before_year year + days_before_month year month + day))"

text \<open>
  The ordinals of January 1st and December 31st of \<open>year\<close>, the two dates that
  \<^verbatim>\<open>generate_year_dates\<close> builds with the constructor.
\<close>

definition first_day :: "int \<Rightarrow> date" where
  "first_day year = days_before_year year + 1"

definition last_day :: "int \<Rightarrow> date" where
  "last_day year = days_before_year (year + 1)"

text \<open>The dates of \<open>year\<close> are those from its January 1st to its December 31st.\<close>

definition in_year :: "int \<Rightarrow> date \<Rightarrow> bool" where
  "in_year year d = (first_day year \<le> d \<and> d \<le> last_day year)"

text \<open>\<^verbatim>\<open>d + datetime.timedelta(days=n)\<close>\<close>

definition date_add :: "date \<Rightarrow> int \<Rightarrow> py_error + date" where
  "date_add d n =
     (let ord = d + n
      in if 0 < ord \<and> ord \<le> MAXORDINAL then Inr ord else Inl OverflowError)"

text \<open>\<^verbatim>\<open>d - datetime.timedelta(days=n)\<close>\<close>

definition date_sub :: "date \<Rightarrow> int \<Rightarrow> py_error + date" where
  "date_sub d n = date_add d (- n)"

text \<open>\<^verbatim>\<open>(d1 - d2).days\<close>\<close>

definition days_between :: "date \<Rightarrow> date \<Rightarrow> int" where
  "days_between d1 d2 = d1 - d2"

text \<open>\<^verbatim>\<open>d.weekday()\<close>: Monday is 0 and Sunday is 6.\<close>

definition weekday :: "date \<Rightarrow> int" where
  "weekday d = (d + 6) mod 7"

section \<open>holiday_planner.py\<close>

subsection \<open>generate_year_dates\<close>

text \<open>
  The \<^verbatim>\<open>while current <= end\<close> loop: \<open>current\<close> is appended, then advanced by one
  day. The advance is date arithmetic and may raise.
\<close>

function generate_year_dates_loop :: "date \<Rightarrow> date \<Rightarrow> date list \<Rightarrow> py_error + date list" where
  "generate_year_dates_loop current end dates =
     (if current \<le> end
      then (case date_add current 1 of
              Inl e \<Rightarrow> Inl e
            | Inr current' \<Rightarrow> generate_year_dates_loop current' end (dates @ [current]))
      else Inr dates)"
  by pat_completeness auto
termination
  by (relation "measure (\<lambda>(current, end, dates). nat (end + 1 - current))")
     (auto simp: date_add_def Let_def split: if_splits)

definition generate_year_dates :: "int \<Rightarrow> py_error + date list" where
  "generate_year_dates year =
     (case date_ymd year 1 1 of
        Inl e \<Rightarrow> Inl e
      | Inr start \<Rightarrow>
          (case date_ymd year 12 31 of
             Inl e \<Rightarrow> Inl e
           | Inr end \<Rightarrow> generate_year_dates_loop start end []))"

subsection \<open>compute_off_days\<close>

text \<open>
  The \<^verbatim>\<open>for d in dates\<close> loop that adds every date whose weekday is not a working
  day to the copy of the holiday set. \<open>working_days\<close> is the list built by
  \<^verbatim>\<open>main\<close> from the command line.
\<close>

fun compute_off_days_loop :: "date list \<Rightarrow> int list \<Rightarrow> date set \<Rightarrow> date set" where
  "compute_off_days_loop [] working_days off_days = off_days"
| "compute_off_days_loop (d # dates) working_days off_days =
     (if weekday d \<notin> set working_days
      then compute_off_days_loop dates working_days (insert d off_days)
      else compute_off_days_loop dates working_days off_days)"

definition compute_off_days :: "int \<Rightarrow> date set \<Rightarrow> int list \<Rightarrow> py_error + date set" where
  "compute_off_days year holidays working_days =
     (case generate_year_dates year of
        Inl e \<Rightarrow> Inl e
      | Inr dates \<Rightarrow> Inr (compute_off_days_loop dates working_days holidays))"

subsection \<open>get_continuous_block\<close>

text \<open>
  \<^verbatim>\<open>while prev in off_set: start = prev; prev -= delta\<close>. The result is the final
  value of \<open>start\<close>.
\<close>

function expand_backwards :: "date set \<Rightarrow> date \<Rightarrow> date \<Rightarrow> py_error + date" where
  "expand_backwards off_set start prev =
     (if prev \<in> off_set
      then (case date_sub prev 1 of
              Inl e \<Rightarrow> Inl e
            | Inr prev' \<Rightarrow> expand_backwards off_set prev prev')
      else Inr start)"
  by pat_completeness auto
termination
  by (relation "measure (\<lambda>(off_set, start, prev). nat prev)")
     (auto simp: date_sub_def date_add_def Let_def split: if_splits)

text \<open>
  \<^verbatim>\<open>while nxt in off_set: end = nxt; nxt += delta\<close>. The result is the final value
  of \<open>end\<close>.
\<close>

function expand_forwards :: "date set \<Rightarrow> date \<Rightarrow> date \<Rightarrow> py_error + date" where
  "expand_forwards off_set end nxt =
     (if nxt \<in> off_set
      then (case date_add nxt 1 of
              Inl e \<Rightarrow> Inl e
            | Inr nxt' \<Rightarrow> expand_forwards off_set nxt nxt')
      else Inr end)"
  by pat_completeness auto
termination
  by (relation "measure (\<lambda>(off_set, end, nxt). nat (MAXORDINAL - nxt))")
     (auto simp: date_add_def Let_def split: if_splits)

definition get_continuous_block :: "date \<Rightarrow> date set \<Rightarrow> py_error + (date \<times> date \<times> int)" where
  "get_continuous_block candidate off_set =
     (case date_sub candidate 1 of
        Inl e \<Rightarrow> Inl e
      | Inr prev \<Rightarrow>
          (case expand_backwards off_set candidate prev of
             Inl e \<Rightarrow> Inl e
           | Inr start \<Rightarrow>
               (case date_add candidate 1 of
                  Inl e \<Rightarrow> Inl e
                | Inr nxt \<Rightarrow>
                    (case expand_forwards off_set candidate nxt of
                       Inl e \<Rightarrow> Inl e
                     | Inr end \<Rightarrow> Inr (start, end, days_between end start + 1)))))"

subsection \<open>find_leave_suggestions\<close>

record suggestion =
  leave_day :: date
  block_start :: date
  block_end :: date
  block_length :: int

text \<open>
  The test \<^verbatim>\<open>(d - timedelta(days=1) in off_days) or (d + timedelta(days=1) in off_days)\<close>:
  the right operand is evaluated only when the left one is false.
\<close>

definition neighbour_is_off :: "date \<Rightarrow> date set \<Rightarrow> py_error + bool" where
  "neighbour_is_off d off_days =
     (case date_sub d 1 of
        Inl e \<Rightarrow> Inl e
      | Inr prev \<Rightarrow>
          if prev \<in> off_days then Inr True
          else (case date_add d 1 of
                  Inl e \<Rightarrow> Inl e
                | Inr nxt \<Rightarrow> Inr (nxt \<in> off_days)))"

text \<open>
  The body of the \<^verbatim>\<open>for d in dates\<close> loop: \<open>None\<close> when nothing is appended for
  \<open>d\<close>, the appended record otherwise. The set handed to \<open>get_continuous_block\<close> is
  the copy \<^verbatim>\<open>new_off\<close> of \<open>off_days\<close> with \<open>d\<close> added.
\<close>

definition find_leave_suggestions_body ::
  "date \<Rightarrow> date set \<Rightarrow> int list \<Rightarrow> int \<Rightarrow> py_error + suggestion option" where
  "find_leave_suggestions_body d off_days working_days threshold =
     (if weekday d \<in> set working_days \<and> d \<notin> off_days
      then (case neighbour_is_off d off_days of
              Inl e \<Rightarrow> Inl e
            | Inr touching \<Rightarrow>
                if touching
                then (case get_continuous_block d (insert d off_days) of
                        Inl e \<Rightarrow> Inl e
                      | Inr (start, end, len) \<Rightarrow>
                          if len \<ge> threshold
                          then Inr (Some \<lparr>leave_day = d, block_start = start,
                                           block_end = end, block_length = len\<rparr>)
                          else Inr None)
                else Inr None)
      else Inr None)"

fun find_leave_suggestions_loop ::
  "date list \<Rightarrow> date set \<Rightarrow> int list \<Rightarrow> int \<Rightarrow> suggestion list \<Rightarrow> py_error + suggestion list" where
  "find_leave_suggestions_loop [] off_days working_days threshold suggestions = Inr suggestions"
| "find_leave_suggestions_loop (d # dates) off_days working_days threshold suggestions =
     (case find_leave_suggestions_body d off_days working_days threshold of
        Inl e \<Rightarrow> Inl e
      | Inr None \<Rightarrow>
          find_leave_suggestions_loop dates off_days working_days threshold suggestions
      | Inr (Some s) \<Rightarrow>
          find_leave_suggestions_loop dates off_days working_days threshold (suggestions @ [s]))"

definition find_leave_suggestions ::
  "int \<Rightarrow> date set \<Rightarrow> int list \<Rightarrow> int \<Rightarrow> py_error + suggestion list" where
  "find_leave_suggestions year off_days working_days threshold =
     (case generate_year_dates year of
        Inl e \<Rightarrow> Inl e
      | Inr dates \<Rightarrow> find_leave_suggestions_loop dates off_days working_days threshold [])"

text \<open>
  The two calls of \<^verbatim>\<open>main\<close> that turn the parsed holidays into suggestions:
  \<^verbatim>\<open>off_days = compute_off_days(year, holidays, working_days)\<close> and then
  \<^verbatim>\<open>find_leave_suggestions(year, off_days, working_days, threshold)\<close>.
\<close>

definition main_suggestions ::
  "int \<Rightarrow> date set \<Rightarrow> int list \<Rightarrow> int \<Rightarrow> py_error + suggestion list" where
  "main_suggestions year holidays working_days threshold =
     (case compute_off_days year holidays working_days of
        Inl e \<Rightarrow> Inl e
      | Inr off_days \<Rightarrow> find_leave_suggestions year off_days working_days threshold)"

subsection \<open>parse_csv\<close>




section \<open>sample.py\<close>

text \<open>
  The second script defines the same four functions again. They are translated
  separately, from the text of \<^verbatim>\<open>sample.py\<close>, under the names \<open>sample_\<dots>\<close>.
\<close>

subsection \<open>generate_year_dates\<close>

function sample_generate_year_dates_loop ::
  "date \<Rightarrow> date \<Rightarrow> date list \<Rightarrow> py_error + date list" where
  "sample_generate_year_dates_loop current end dates =
     (if current \<le> end
      then (case date_add current 1 of
              Inl e \<Rightarrow> Inl e
            | Inr current' \<Rightarrow> sample_generate_year_dates_loop current' end (dates @ [current]))
      else Inr dates)"
  by pat_completeness auto
termination
  by (relation "measure (\<lambda>(current, end, dates). nat (end + 1 - current))")
     (auto simp: date_add_def Let_def split: if_splits)

definition sample_generate_year_dates :: "int \<Rightarrow> py_error + date list" where
  "sample_generate_year_dates year =
     (case date_ymd year 1 1 of
        Inl e \<Rightarrow> Inl e
      | Inr start \<Rightarrow>
          (case date_ymd year 12 31 of
             Inl e \<Rightarrow> Inl e
           | Inr end \<Rightarrow> sample_generate_year_dates_loop start end []))"

subsection \<open>compute_off_days\<close>

text \<open>
  The loop run when \<^verbatim>\<open>include_sundays\<close> is set:
  \<^verbatim>\<open>if d.weekday() == 6: off_days.add(d)\<close>.
\<close>

fun sample_add_sundays_loop :: "date list \<Rightarrow> date set \<Rightarrow> date set" where
  "sample_add_sundays_loop [] off_days = off_days"
| "sample_add_sundays_loop (d # dates) off_days =
     (if weekday d = 6
      then sample_add_sundays_loop dates (insert d off_days)
      else sample_add_sundays_loop dates off_days)"

fun sample_compute_off_days_loop :: "date list \<Rightarrow> int list \<Rightarrow> date set \<Rightarrow> date set" where
  "sample_compute_off_days_loop [] working_days off_days = off_days"
| "sample_compute_off_days_loop (d # dates) working_days off_days =
     (if weekday d \<notin> set working_days
      then sample_compute_off_days_loop dates working_days (insert d off_days)
      else sample_compute_off_days_loop dates working_days off_days)"

definition sample_compute_off_days ::
  "int \<Rightarrow> date set \<Rightarrow> int list \<Rightarrow> bool \<Rightarrow> py_error + date set" where
  "sample_compute_off_days year holidays working_days include_sundays =
     (case sample_generate_year_dates year of
        Inl e \<Rightarrow> Inl e
      | Inr dates \<Rightarrow>
          (let off_days = (if include_sundays then sample_add_sundays_loop dates holidays
                           else holidays)
           in Inr (sample_compute_off_days_loop dates working_days off_days)))"

subsection \<open>get_continuous_block\<close>




subsection \<open>find_leave_suggestions\<close>






subsection \<open>parse_csv\<close>



section \<open>The off-day set as a mutable object\<close>

text \<open>
  In the definitions above a set is a value. In the program it is an object that
  \<^verbatim>\<open>add\<close> changes in place, and \<open>find_leave_suggestions\<close> receives a reference to the
  caller's object. To say what the scan does to that object, the objects are put in a
  heap: a list of sets, a reference being an index into it.
\<close>

type_synonym ref = nat

type_synonym heap = "date set list"

text \<open>\<^verbatim>\<open>set(s)\<close>: a new object with the elements of \<open>s\<close>.\<close>

definition heap_copy :: "heap \<Rightarrow> ref \<Rightarrow> heap \<times> ref" where
  "heap_copy h s = (h @ [h ! s], length h)"

text \<open>\<^verbatim>\<open>s.add(d)\<close>: the object \<open>s\<close> refers to is changed.\<close>

definition heap_add :: "heap \<Rightarrow> ref \<Rightarrow> date \<Rightarrow> heap" where
  "heap_add h s d = h[s := insert d (h ! s)]"

text \<open>
  A call \<^verbatim>\<open>get_continuous_block(candidate, off_set)\<close> is recorded with its two
  arguments and the heap at the time of the call, so that one can say which object a
  candidate was judged on and what that object held then.
\<close>

type_synonym call = "date \<times> ref \<times> heap"

text \<open>\<open>get_continuous_block\<close> only reads the object it is given.\<close>

definition get_continuous_block_heap ::
  "heap \<Rightarrow> date \<Rightarrow> ref \<Rightarrow> call \<times> (py_error + (date \<times> date \<times> int))" where
  "get_continuous_block_heap h candidate off_set =
     ((candidate, off_set, h), get_continuous_block candidate (h ! off_set))"

text \<open>
  The body of the loop of \<open>find_leave_suggestions\<close> on the heap. \<open>off_days\<close> is the
  reference passed by the caller. The membership tests only read the caller's object;
  \<^verbatim>\<open>new_off = set(off_days)\<close> allocates, \<^verbatim>\<open>new_off.add(d)\<close> writes, and
  \<open>get_continuous_block\<close> is called with \<^verbatim>\<open>new_off\<close>. The result is the heap
  left behind, the calls made and what the body computes.
\<close>

definition find_leave_suggestions_body_heap ::
  "heap \<Rightarrow> date \<Rightarrow> ref \<Rightarrow> int list \<Rightarrow> int
     \<Rightarrow> heap \<times> call list \<times> (py_error + suggestion option)" where
  "find_leave_suggestions_body_heap h d off_days working_days threshold =
     (if weekday d \<in> set working_days \<and> d \<notin> h ! off_days
      then (case neighbour_is_off d (h ! off_days) of
              Inl e \<Rightarrow> (h, [], Inl e)
            | Inr touching \<Rightarrow>
                if touching
                then (case heap_copy h off_days of
                        (h1, new_off) \<Rightarrow>
                          (let h2 = heap_add h1 new_off d
                           in (case get_continuous_block_heap h2 d new_off of
                                 (c, Inl e) \<Rightarrow> (h2, [c], Inl e)
                               | (c, Inr (start, end, len)) \<Rightarrow>
                                   if len \<ge> threshold
                                   then (h2, [c],
                                         Inr (Some \<lparr>leave_day = d, block_start = start,
                                                     block_end = end, block_length = len\<rparr>))
                                   else (h2, [c], Inr None))))
                else (h, [], Inr None))
      else (h, [], Inr None))"

fun find_leave_suggestions_loop_heap ::
  "heap \<Rightarrow> date list \<Rightarrow> ref \<Rightarrow> int list \<Rightarrow> int \<Rightarrow> suggestion list \<Rightarrow> call list
     \<Rightarrow> heap \<times> call list \<times> (py_error + suggestion list)" where
  "find_leave_suggestions_loop_heap h [] off_days working_days threshold suggestions calls =
     (h, calls, Inr suggestions)"
| "find_leave_suggestions_loop_heap h (d # dates) off_days working_days threshold suggestions
     calls =
     (case find_leave_suggestions_body_heap h d off_days working_days threshold of
        (h', cs, Inl e) \<Rightarrow> (h', calls @ cs, Inl e)
      | (h', cs, Inr None) \<Rightarrow>
          find_leave_suggestions_loop_heap h' dates off_days working_days threshold suggestions
            (calls @ cs)
      | (h', cs, Inr (Some s)) \<Rightarrow>
          find_leave_suggestions_loop_heap h' dates off_days working_days threshold
            (suggestions @ [s]) (calls @ cs))"

definition find_leave_suggestions_heap ::
  "heap \<Rightarrow> int \<Rightarrow> ref \<Rightarrow> int list \<Rightarrow> int
     \<Rightarrow> heap \<times> call list \<times> (py_error + suggestion list)" where
  "find_leave_suggestions_heap h year off_days working_days threshold =
     (case generate_year_dates year of
        Inl e \<Rightarrow> (h, [], Inl e)
      | Inr dates \<Rightarrow>
          find_leave_suggestions_loop_heap h dates off_days working_days threshold [] [])"

section \<open>The dates of a year\<close>

declare generate_year_dates_loop.simps [simp del]
declare expand_backwards.simps [simp del]
declare expand_forwards.simps [simp del]

lemma div_succ:
  fixes y k :: int
  assumes "0 < k"
  shows "(y + 1) div k = y div k + (if (y + 1) mod k = 0 then 1 else 0)"
proof (cases "y mod k + 1 = k")
  case True
  have "y = k * (y div k) + y mod k" by simp
  with True have eq: "y + 1 = k * (y div k + 1) + 0"
    by (metis add.assoc add.right_neutral distrib_left mult.right_neutral)
  have "(y + 1) div k = y div k + 1"
    by (rule int_div_pos_eq [OF eq]) (use assms in simp_all)
  moreover have "(y + 1) mod k = 0"
    by (rule int_mod_pos_eq [OF eq]) (use assms in simp_all)
  ultimately show ?thesis by simp
next
  case False
  have r: "0 \<le> y mod k" "y mod k < k" using assms by simp_all
  have eq: "y + 1 = k * (y div k) + (y mod k + 1)" by simp
  have "(y + 1) div k = y div k"
    by (rule int_div_pos_eq [OF eq]) (use r False in simp_all)
  moreover have "(y + 1) mod k = y mod k + 1"
    by (rule int_mod_pos_eq [OF eq]) (use r False in simp_all)
  ultimately show ?thesis using r by simp
qed

lemma days_before_year_Suc:
  "days_before_year (year + 1) = days_before_year year + (if is_leap year then 366 else 365)"
proof -
  have a: "year div 4 = (year - 1) div 4 + (if year mod 4 = 0 then 1 else 0)"
    using div_succ [of 4 "year - 1"] by simp
  have b: "year div 100 = (year - 1) div 100 + (if year mod 100 = 0 then 1 else 0)"
    using div_succ [of 100 "year - 1"] by simp
  have c: "year div 400 = (year - 1) div 400 + (if year mod 400 = 0 then 1 else 0)"
    using div_succ [of 400 "year - 1"] by simp
  have d: "year mod 400 = 0 \<Longrightarrow> year mod 100 = 0"
    by presburger
  have e: "year mod 100 = 0 \<Longrightarrow> year mod 4 = 0"
    by presburger
  have "days_before_year (year + 1) = year * 365 + year div 4 - year div 100 + year div 400"
    by (simp add: days_before_year_def)
  also have "\<dots> = days_before_year year + (if is_leap year then 366 else 365)"
    unfolding a b c using d e
    by (cases "year mod 4 = 0"; cases "year mod 100 = 0"; cases "year mod 400 = 0")
       (simp_all add: days_before_year_def is_leap_def Let_def)
  finally show ?thesis .
qed

lemma days_before_year_mono: "y \<le> y' \<Longrightarrow> days_before_year y \<le> days_before_year y'"
proof (induction y' rule: int_ge_induct)
  case base
  show ?case by simp
next
  case (step i)
  then show ?case by (simp add: days_before_year_Suc)
qed

lemma days_before_year_lower: "1 \<le> year \<Longrightarrow> 0 \<le> days_before_year year"
  using days_before_year_mono [of 1 year] by (simp add: days_before_year_def)

lemma days_before_year_upper: "year \<le> 9999 \<Longrightarrow> days_before_year year \<le> 3651694"
  using days_before_year_mono [of year 9999] by (simp add: days_before_year_def)

lemma first_day_le_last_day: "first_day year \<le> last_day year"
  by (simp add: first_day_def last_day_def days_before_year_Suc)

lemma first_day_positive: "1 \<le> year \<Longrightarrow> 0 < first_day year"
  using days_before_year_lower [of year] by (simp add: first_day_def)

lemma last_day_bound: "year \<le> 9998 \<Longrightarrow> last_day year \<le> 3651694"
  using days_before_year_upper [of "year + 1"] by (simp add: last_day_def)

lemma date_ymd_first:
  "1 \<le> year \<Longrightarrow> year \<le> 9999 \<Longrightarrow> date_ymd year 1 1 = Inr (first_day year)"
  by (simp add: date_ymd_def fits_c_int_def MINYEAR_def MAXYEAR_def days_in_month_def days_before_month_def
      first_day_def)

lemma date_ymd_last:
  "1 \<le> year \<Longrightarrow> year \<le> 9999 \<Longrightarrow> date_ymd year 12 31 = Inr (last_day year)"
  by (simp add: date_ymd_def fits_c_int_def MINYEAR_def MAXYEAR_def days_in_month_def days_before_month_def
      last_day_def days_before_year_Suc)

lemma date_ymd_out_of_range:
  "year < 1 \<or> 9999 < year \<Longrightarrow>
   date_ymd year month day
     = Inl (if fits_c_int year \<and> fits_c_int month \<and> fits_c_int day then ValueError
            else OverflowError)"
  by (auto simp: date_ymd_def MINYEAR_def MAXYEAR_def)

lemma generate_year_dates_loop_upto:
  "0 < current \<Longrightarrow> fin < MAXORDINAL \<Longrightarrow>
   generate_year_dates_loop current fin dates = Inr (dates @ [current..fin])"
proof (induction current fin dates rule: generate_year_dates_loop.induct)
  case (1 current fin dates)
  show ?case
  proof (cases "current \<le> fin")
    case True
    with "1.prems" have step: "date_add current 1 = Inr (current + 1)"
      by (simp add: date_add_def)
    from True have "[current..fin] = current # [current + 1..fin]"
      by (simp add: upto_rec1)
    with "1.IH" [OF True step] "1.prems" True step show ?thesis
      by (subst generate_year_dates_loop.simps) simp
  next
    case False
    then show ?thesis
      by (subst generate_year_dates_loop.simps) simp
  qed
qed

lemma generate_year_dates_upto:
  assumes "1 \<le> year" "year \<le> 9998"
  shows "generate_year_dates year = Inr [first_day year..last_day year]"
proof -
  have "last_day year < MAXORDINAL"
    using last_day_bound [of year] assms by (simp add: MAXORDINAL_def)
  then show ?thesis
    using assms first_day_positive [of year]
    by (simp add: generate_year_dates_def date_ymd_first date_ymd_last generate_year_dates_loop_upto)
qed

lemma generate_year_dates_loop_overflow:
  "0 < current \<Longrightarrow> current \<le> fin \<Longrightarrow> fin = MAXORDINAL \<Longrightarrow>
   generate_year_dates_loop current fin dates = Inl OverflowError"
proof (induction current fin dates rule: generate_year_dates_loop.induct)
  case (1 current fin dates)
  show ?case
  proof (cases "current = fin")
    case True
    with "1.prems" show ?thesis
      by (subst generate_year_dates_loop.simps) (simp add: date_add_def)
  next
    case False
    with "1.prems" have le: "current \<le> fin" and step: "date_add current 1 = Inr (current + 1)"
      by (simp_all add: date_add_def)
    from "1.IH" [OF le step] "1.prems" False le step show ?thesis
      by (subst generate_year_dates_loop.simps) simp
  qed
qed

lemma generate_year_dates_out_of_range:
  "year < 1 \<or> 9999 < year \<Longrightarrow>
   generate_year_dates year = Inl (if fits_c_int year then ValueError else OverflowError)"
  by (simp add: generate_year_dates_def date_ymd_out_of_range fits_c_int_def)

lemma hd_upto: "i \<le> j \<Longrightarrow> hd [i..j] = i"
  by (simp add: upto_rec1)

lemma last_upto: "i \<le> j \<Longrightarrow> last [i..j] = j"
  by (simp add: upto_rec2)

lemma generate_year_dates_max_year: "generate_year_dates 9999 = Inl OverflowError"
proof -
  have "last_day 9999 = MAXORDINAL"
    by (simp add: last_day_def days_before_year_def MAXORDINAL_def)
  moreover have "0 < first_day 9999" "first_day 9999 \<le> last_day 9999"
    by (simp_all add: first_day_def last_day_def days_before_year_def)
  ultimately show ?thesis
    by (simp add: generate_year_dates_def date_ymd_first date_ymd_last
        generate_year_dates_loop_overflow)
qed

section \<open>The block around a candidate\<close>

lemma date_add_Inr: "date_add d n = Inr d' \<longleftrightarrow> d' = d + n \<and> valid_date (d + n)"
  by (auto simp: date_add_def valid_date_def Let_def)

lemma date_sub_Inr: "date_sub d n = Inr d' \<longleftrightarrow> d' = d - n \<and> valid_date (d - n)"
  by (auto simp: date_sub_def date_add_def valid_date_def Let_def)

lemma date_add_Inl: "date_add d n = Inl e \<longleftrightarrow> e = OverflowError \<and> \<not> valid_date (d + n)"
  by (auto simp: date_add_def valid_date_def Let_def)

lemma date_sub_Inl: "date_sub d n = Inl e \<longleftrightarrow> e = OverflowError \<and> \<not> valid_date (d - n)"
  by (auto simp: date_sub_def date_add_def valid_date_def Let_def)

lemma expand_backwards_result:
  "expand_backwards S start prev = Inr s \<Longrightarrow> start = prev + 1 \<Longrightarrow>
   s \<le> start \<and> s - 1 \<notin> S \<and> (\<forall>x. s \<le> x \<and> x \<le> prev \<longrightarrow> x \<in> S)"
proof (induction S start prev rule: expand_backwards.induct)
  case (1 S start prev)
  show ?case
  proof (cases "prev \<in> S")
    case True
    with "1.prems"(1) obtain prev' where sub: "date_sub prev 1 = Inr prev'"
      and rec: "expand_backwards S prev prev' = Inr s"
      by (subst (asm) expand_backwards.simps) (auto split: sum.splits)
    from sub have p: "prev' = prev - 1" by (simp add: date_sub_Inr)
    then have "prev = prev' + 1" by simp
    from "1.IH" [OF True sub rec this]
    have ih: "s \<le> prev" "s - 1 \<notin> S" "\<forall>x. s \<le> x \<and> x \<le> prev' \<longrightarrow> x \<in> S"
      by simp_all
    have "x \<in> S" if "s \<le> x \<and> x \<le> prev" for x
    proof (cases "x = prev")
      case True
      with \<open>prev \<in> S\<close> show ?thesis by simp
    next
      case False
      with that p have "s \<le> x \<and> x \<le> prev'" by simp
      with ih(3) show ?thesis by blast
    qed
    with ih(1,2) "1.prems"(2) show ?thesis
      by simp
  next
    case False
    with "1.prems" show ?thesis
      by (subst (asm) expand_backwards.simps) auto
  qed
qed

lemma expand_backwards_returns:
  "valid_date lo \<Longrightarrow> lo \<le> prev \<Longrightarrow> valid_date prev \<Longrightarrow> lo \<notin> S \<Longrightarrow>
   \<exists>s. expand_backwards S start prev = Inr s"
proof (induction S start prev rule: expand_backwards.induct)
  case (1 S start prev)
  show ?case
  proof (cases "prev \<in> S")
    case True
    with "1.prems" have "lo \<noteq> prev" by blast
    with "1.prems" have "lo \<le> prev - 1" by simp
    with "1.prems" have v: "valid_date (prev - 1)" by (simp add: valid_date_def)
    then have sub: "date_sub prev 1 = Inr (prev - 1)" by (simp add: date_sub_Inr)
    from "1.IH" [OF True sub "1.prems"(1) \<open>lo \<le> prev - 1\<close> v "1.prems"(4)] True sub
    show ?thesis
      by (subst expand_backwards.simps) simp
  next
    case False
    then show ?thesis
      by (subst expand_backwards.simps) simp
  qed
qed

lemma expand_backwards_error:
  "expand_backwards S start prev = Inl e \<Longrightarrow> e = OverflowError"
proof (induction S start prev rule: expand_backwards.induct)
  case (1 S start prev)
  from "1.prems" have mem: "prev \<in> S"
    by (subst (asm) expand_backwards.simps) (auto split: if_splits)
  show ?case
  proof (cases "date_sub prev 1")
    case (Inl e')
    with mem "1.prems" show ?thesis
      by (subst (asm) expand_backwards.simps) (simp add: date_sub_Inl)
  next
    case (Inr prev')
    with mem "1.prems" have "expand_backwards S prev prev' = Inl e"
      by (subst (asm) expand_backwards.simps) simp
    from "1.IH" [OF mem Inr this] show ?thesis .
  qed
qed

lemma expand_forwards_result:
  "expand_forwards S fin nxt = Inr e \<Longrightarrow> nxt = fin + 1 \<Longrightarrow>
   fin \<le> e \<and> e + 1 \<notin> S \<and> (\<forall>x. nxt \<le> x \<and> x \<le> e \<longrightarrow> x \<in> S)"
proof (induction S fin nxt rule: expand_forwards.induct)
  case (1 S fin nxt)
  show ?case
  proof (cases "nxt \<in> S")
    case True
    with "1.prems"(1) obtain nxt' where add: "date_add nxt 1 = Inr nxt'"
      and rec: "expand_forwards S nxt nxt' = Inr e"
      by (subst (asm) expand_forwards.simps) (auto split: sum.splits)
    from add have p: "nxt' = nxt + 1" by (simp add: date_add_Inr)
    from "1.IH" [OF True add rec p]
    have ih: "nxt \<le> e" "e + 1 \<notin> S" "\<forall>x. nxt' \<le> x \<and> x \<le> e \<longrightarrow> x \<in> S"
      by simp_all
    have "x \<in> S" if "nxt \<le> x \<and> x \<le> e" for x
    proof (cases "x = nxt")
      case True
      with \<open>nxt \<in> S\<close> show ?thesis by simp
    next
      case False
      with that p have "nxt' \<le> x \<and> x \<le> e" by simp
      with ih(3) show ?thesis by blast
    qed
    with ih(1,2) "1.prems"(2) show ?thesis
      by simp
  next
    case False
    with "1.prems" show ?thesis
      by (subst (asm) expand_forwards.simps) auto
  qed
qed

lemma expand_forwards_returns:
  "valid_date hi \<Longrightarrow> nxt \<le> hi \<Longrightarrow> valid_date nxt \<Longrightarrow> hi \<notin> S \<Longrightarrow>
   \<exists>e. expand_forwards S fin nxt = Inr e"
proof (induction S fin nxt rule: expand_forwards.induct)
  case (1 S fin nxt)
  show ?case
  proof (cases "nxt \<in> S")
    case True
    with "1.prems" have "hi \<noteq> nxt" by blast
    with "1.prems" have le: "nxt + 1 \<le> hi" by simp
    with "1.prems" have v: "valid_date (nxt + 1)" by (simp add: valid_date_def)
    then have add: "date_add nxt 1 = Inr (nxt + 1)" by (simp add: date_add_Inr)
    from "1.IH" [OF True add "1.prems"(1) le v "1.prems"(4)] True add
    show ?thesis
      by (subst expand_forwards.simps) simp
  next
    case False
    then show ?thesis
      by (subst expand_forwards.simps) simp
  qed
qed

lemma expand_forwards_error:
  "expand_forwards S fin nxt = Inl e \<Longrightarrow> e = OverflowError"
proof (induction S fin nxt rule: expand_forwards.induct)
  case (1 S fin nxt)
  from "1.prems" have mem: "nxt \<in> S"
    by (subst (asm) expand_forwards.simps) (auto split: if_splits)
  show ?case
  proof (cases "date_add nxt 1")
    case (Inl e')
    with mem "1.prems" show ?thesis
      by (subst (asm) expand_forwards.simps) (simp add: date_add_Inl)
  next
    case (Inr nxt')
    with mem "1.prems" have "expand_forwards S nxt nxt' = Inl e"
      by (subst (asm) expand_forwards.simps) simp
    from "1.IH" [OF mem Inr this] show ?thesis .
  qed
qed

text \<open>What a returned triple is made of.\<close>

lemma get_continuous_block_Inr:
  "get_continuous_block c S = Inr (s, e, n) \<longleftrightarrow>
     valid_date (c - 1) \<and> valid_date (c + 1)
     \<and> expand_backwards S c (c - 1) = Inr s
     \<and> expand_forwards S c (c + 1) = Inr e
     \<and> n = days_between e s + 1"
  by (auto simp: get_continuous_block_def date_sub_Inr date_add_Inr date_sub_Inl date_add_Inl
      split: sum.splits)

lemma get_continuous_block_error:
  "get_continuous_block c S = Inl err \<Longrightarrow> err = OverflowError"
  by (auto simp: get_continuous_block_def date_sub_Inl date_add_Inl split: sum.splits
      dest: expand_backwards_error expand_forwards_error)

lemma get_continuous_block_bounds:
  assumes "get_continuous_block c S = Inr (s, e, n)"
  shows "s \<le> c" "c \<le> e" "n = days_between e s + 1"
    "s - 1 \<notin> S" "e + 1 \<notin> S" "\<forall>x. s \<le> x \<and> x \<le> e \<and> x \<noteq> c \<longrightarrow> x \<in> S"
proof -
  from assms have b: "expand_backwards S c (c - 1) = Inr s"
    and f: "expand_forwards S c (c + 1) = Inr e" and n: "n = days_between e s + 1"
    by (simp_all add: get_continuous_block_Inr)
  from expand_backwards_result [OF b] have b': "s \<le> c" "s - 1 \<notin> S"
    "\<forall>x. s \<le> x \<and> x \<le> c - 1 \<longrightarrow> x \<in> S" by simp_all
  from expand_forwards_result [OF f] have f': "c \<le> e" "e + 1 \<notin> S"
    "\<forall>x. c + 1 \<le> x \<and> x \<le> e \<longrightarrow> x \<in> S" by simp_all
  show "s \<le> c" "c \<le> e" "n = days_between e s + 1" "s - 1 \<notin> S" "e + 1 \<notin> S"
    by (fact b' f' n)+
  show "\<forall>x. s \<le> x \<and> x \<le> e \<and> x \<noteq> c \<longrightarrow> x \<in> S"
  proof (intro allI impI)
    fix x assume "s \<le> x \<and> x \<le> e \<and> x \<noteq> c"
    then have "s \<le> x \<and> x \<le> c - 1 \<or> c + 1 \<le> x \<and> x \<le> e" by auto
    with b'(3) f'(3) show "x \<in> S" by blast
  qed
qed

lemma get_continuous_block_returns:
  assumes "valid_date lo" "lo < c" "lo \<notin> S" "valid_date hi" "c < hi" "hi \<notin> S"
  shows "\<exists>s e. get_continuous_block c S = Inr (s, e, days_between e s + 1)"
proof -
  from assms have vp: "valid_date (c - 1)" and vn: "valid_date (c + 1)"
    by (simp_all add: valid_date_def)
  from assms have "lo \<le> c - 1" "c + 1 \<le> hi" by simp_all
  from expand_backwards_returns [OF assms(1) this(1) vp assms(3)]
  obtain s where s: "expand_backwards S c (c - 1) = Inr s" by blast
  from expand_forwards_returns [OF assms(4) \<open>c + 1 \<le> hi\<close> vn assms(6)]
  obtain e where e: "expand_forwards S c (c + 1) = Inr e" by blast
  from vp vn s e show ?thesis
    by (simp add: get_continuous_block_Inr)
qed

section \<open>The scan over the dates of the year\<close>

lemma neighbour_is_off_Inr:
  "neighbour_is_off d off = Inr b \<Longrightarrow> b \<longleftrightarrow> d - 1 \<in> off \<or> d + 1 \<in> off"
  by (auto simp: neighbour_is_off_def date_sub_Inr date_add_Inr split: sum.splits if_splits)

lemma neighbour_is_off_valid:
  "valid_date (d - 1) \<Longrightarrow> valid_date (d + 1) \<Longrightarrow>
   neighbour_is_off d off = Inr (d - 1 \<in> off \<or> d + 1 \<in> off)"
  by (auto simp: neighbour_is_off_def date_sub_Inr date_add_Inr date_sub_Inl date_add_Inl
      split: sum.splits)

lemma body_Some:
  "find_leave_suggestions_body d off wd t = Inr (Some s) \<Longrightarrow>
   leave_day s = d \<and> weekday d \<in> set wd \<and> d \<notin> off \<and> (d - 1 \<in> off \<or> d + 1 \<in> off)
   \<and> get_continuous_block d (insert d off) = Inr (block_start s, block_end s, block_length s)
   \<and> t \<le> block_length s"
  by (auto simp: find_leave_suggestions_body_def split: if_splits sum.splits prod.splits
      dest: neighbour_is_off_Inr)

lemma body_not_working:
  "weekday d \<notin> set wd \<or> d \<in> off \<Longrightarrow> find_leave_suggestions_body d off wd t = Inr None"
  by (auto simp: find_leave_suggestions_body_def)

text \<open>The threshold only decides whether the record found is kept.\<close>

lemma body_error_threshold:
  "find_leave_suggestions_body d off wd t = Inl e \<longleftrightarrow>
   find_leave_suggestions_body d off wd t' = Inl e"
  by (auto simp: find_leave_suggestions_body_def split: sum.splits prod.splits)

lemma body_threshold_mono:
  assumes "t \<le> t'"
  shows "find_leave_suggestions_body d off wd t' =
     (case find_leave_suggestions_body d off wd t of
        Inl e \<Rightarrow> Inl e
      | Inr None \<Rightarrow> Inr None
      | Inr (Some s) \<Rightarrow> if t' \<le> block_length s then Inr (Some s) else Inr None)"
  using assms
  by (auto simp: find_leave_suggestions_body_def split: sum.splits prod.splits option.splits)

lemma loop_members:
  "find_leave_suggestions_loop ds off wd t acc = Inr xs \<Longrightarrow> s \<in> set xs \<Longrightarrow>
   s \<in> set acc \<or> (\<exists>d\<in>set ds. find_leave_suggestions_body d off wd t = Inr (Some s))"
proof (induction ds arbitrary: acc)
  case Nil
  then show ?case by simp
next
  case (Cons d ds)
  show ?case
  proof (cases "find_leave_suggestions_body d off wd t")
    case (Inl e)
    with Cons.prems show ?thesis by simp
  next
    case (Inr r)
    show ?thesis
    proof (cases r)
      case None
      with Inr Cons.prems Cons.IH [of acc] show ?thesis by auto
    next
      case (Some s')
      with Inr Cons.prems Cons.IH [of "acc @ [s']"] show ?thesis by auto
    qed
  qed
qed

lemma loop_complete:
  "find_leave_suggestions_loop ds off wd t acc = Inr xs \<Longrightarrow>
   set acc \<subseteq> set xs
   \<and> (\<forall>d\<in>set ds. \<forall>s. find_leave_suggestions_body d off wd t = Inr (Some s) \<longrightarrow> s \<in> set xs)"
proof (induction ds arbitrary: acc)
  case Nil
  then show ?case by simp
next
  case (Cons d ds)
  show ?case
  proof (cases "find_leave_suggestions_body d off wd t")
    case (Inl e)
    with Cons.prems show ?thesis by simp
  next
    case (Inr r)
    show ?thesis
    proof (cases r)
      case None
      with Inr Cons.prems Cons.IH [of acc] show ?thesis by auto
    next
      case (Some s')
      with Inr Cons.prems Cons.IH [of "acc @ [s']"] show ?thesis by auto
    qed
  qed
qed

lemma loop_returns:
  "(\<forall>d\<in>set ds. \<exists>r. find_leave_suggestions_body d off wd t = Inr r) \<Longrightarrow>
   \<exists>xs. find_leave_suggestions_loop ds off wd t acc = Inr xs"
proof (induction ds arbitrary: acc)
  case Nil
  then show ?case by simp
next
  case (Cons d ds)
  then obtain r where r: "find_leave_suggestions_body d off wd t = Inr r" by auto
  from Cons.prems have rest: "\<forall>d\<in>set ds. \<exists>r. find_leave_suggestions_body d off wd t = Inr r"
    by simp
  show ?case
  proof (cases r)
    case None
    with r Cons.IH [OF rest, of acc] show ?thesis by simp
  next
    case (Some s)
    with r Cons.IH [OF rest, of "acc @ [s]"] show ?thesis by simp
  qed
qed

lemma loop_nothing:
  "(\<forall>d\<in>set ds. find_leave_suggestions_body d off wd t = Inr None) \<Longrightarrow>
   find_leave_suggestions_loop ds off wd t acc = Inr acc"
  by (induction ds arbitrary: acc) simp_all


lemma loop_threshold_mono:
  assumes "t \<le> t'"
  shows "find_leave_suggestions_loop ds off wd t acc = Inr xs \<Longrightarrow>
     \<exists>ys. xs = acc @ ys
       \<and> find_leave_suggestions_loop ds off wd t' acc'
           = Inr (acc' @ filter (\<lambda>s. t' \<le> block_length s) ys)"
proof (induction ds arbitrary: acc acc')
  case Nil
  then show ?case by simp
next
  case (Cons d ds)
  note thr = body_threshold_mono [OF assms, of d off wd]
  show ?case
  proof (cases "find_leave_suggestions_body d off wd t")
    case (Inl e)
    with Cons.prems show ?thesis by simp
  next
    case (Inr r)
    show ?thesis
    proof (cases r)
      case None
      with Inr Cons.prems have "find_leave_suggestions_loop ds off wd t acc = Inr xs" by simp
      from Cons.IH [OF this, of acc'] Inr None thr show ?thesis by simp
    next
      case (Some s)
      with Inr Cons.prems have run: "find_leave_suggestions_loop ds off wd t (acc @ [s]) = Inr xs"
        by simp
      show ?thesis
      proof (cases "t' \<le> block_length s")
        case True
        from Cons.IH [OF run, of "acc' @ [s]"] obtain ys where
          "xs = (acc @ [s]) @ ys"
          "find_leave_suggestions_loop ds off wd t' (acc' @ [s])
             = Inr ((acc' @ [s]) @ filter (\<lambda>s. t' \<le> block_length s) ys)" by blast
        with Inr Some thr True show ?thesis
          by (intro exI [of _ "s # ys"]) simp
      next
        case False
        from Cons.IH [OF run, of acc'] obtain ys where
          "xs = (acc @ [s]) @ ys"
          "find_leave_suggestions_loop ds off wd t' acc'
             = Inr (acc' @ filter (\<lambda>s. t' \<le> block_length s) ys)" by blast
        with Inr Some thr False show ?thesis
          by (intro exI [of _ "s # ys"]) simp
      qed
    qed
  qed
qed

lemma loop_error_threshold:
  "find_leave_suggestions_loop ds off wd t acc = Inl e \<Longrightarrow>
   find_leave_suggestions_loop ds off wd t' acc' = Inl e"
proof (induction ds arbitrary: acc acc')
  case Nil
  then show ?case by simp
next
  case (Cons d ds)
  show ?case
  proof (cases "find_leave_suggestions_body d off wd t")
    case (Inl e')
    with Cons.prems have "e' = e" by simp
    with Inl have "find_leave_suggestions_body d off wd t' = Inl e"
      using body_error_threshold [of d off wd t e t'] by simp
    then show ?thesis by simp
  next
    case (Inr r)
    from Inr Cons.prems obtain a where "find_leave_suggestions_loop ds off wd t a = Inl e"
      by (cases r) auto
    from Cons.IH [OF this] have rest: "\<And>acc'. find_leave_suggestions_loop ds off wd t' acc' = Inl e" .
    from Inr obtain r' where "find_leave_suggestions_body d off wd t' = Inr r'"
      using body_error_threshold [of d off wd t' _ t]
      by (cases "find_leave_suggestions_body d off wd t'") auto
    with rest show ?thesis by (cases r') simp_all
  qed
qed

lemma find_leave_suggestions_error_threshold:
  "find_leave_suggestions year off wd t = Inl e \<Longrightarrow>
   find_leave_suggestions year off wd t' = Inl e"
  by (auto simp: find_leave_suggestions_def split: sum.splits dest: loop_error_threshold)

section \<open>The scan of a whole year\<close>

lemma first_day_mono: "y \<le> y' \<Longrightarrow> first_day y \<le> first_day y'"
  by (simp add: first_day_def days_before_year_mono)

lemma year_dates_inside:
  assumes "2 \<le> year" "year \<le> 9998" "first_day year \<le> d" "d \<le> last_day year"
  shows "1 < d" "d < MAXORDINAL"
proof -
  have "first_day 2 = 366" by (simp add: first_day_def days_before_year_def)
  with first_day_mono [OF assms(1)] assms(3) show "1 < d" by simp
  from last_day_bound [OF assms(2)] assms(4) show "d < MAXORDINAL"
    by (simp add: MAXORDINAL_def)
qed

lemma body_returns:
  assumes "1 < d" "d < MAXORDINAL" "1 \<notin> off" "MAXORDINAL \<notin> off"
  shows "\<exists>r. find_leave_suggestions_body d off wd t = Inr r"
proof -
  from assms(1,2) have v: "valid_date (d - 1)" "valid_date (d + 1)"
    "valid_date 1" "valid_date MAXORDINAL"
    by (simp_all add: valid_date_def MAXORDINAL_def)
  from assms have "1 \<notin> insert d off" "MAXORDINAL \<notin> insert d off" by auto
  from get_continuous_block_returns [OF v(3) assms(1) this(1) v(4) assms(2) this(2)]
  obtain s e where "get_continuous_block d (insert d off) = Inr (s, e, days_between e s + 1)"
    by blast
  with neighbour_is_off_valid [OF v(1,2), of off] show ?thesis
    by (simp add: find_leave_suggestions_body_def)
qed

text \<open>
  An example used below: the year 2023 with Monday 2023-12-25 (day 738879) as the only
  off day, a Monday-to-Friday week and threshold 2. The one suggestion is Tuesday
  2023-12-26.
\<close>

lemma example_2023:
  "find_leave_suggestions 2023 {738879} [0, 1, 2, 3, 4] 2 =
     Inr [\<lparr>leave_day = 738880, block_start = 738879, block_end = 738880, block_length = 2\<rparr>]"
  by code_simp

section \<open>The off-day set of a year\<close>

lemma generate_year_dates_Inr:
  assumes "generate_year_dates year = Inr dates"
  shows "1 \<le> year" "year \<le> 9998" "dates = [first_day year..last_day year]"
proof -
  have range: "1 \<le> year \<and> year \<le> 9998"
  proof (rule ccontr)
    assume "\<not> (1 \<le> year \<and> year \<le> 9998)"
    then consider "year < 1 \<or> 9999 < year" | "year = 9999" by linarith
    then show False
      using assms generate_year_dates_out_of_range [of year] generate_year_dates_max_year
      by cases simp_all
  qed
  then show "1 \<le> year" "year \<le> 9998" by simp_all
  from range assms show "dates = [first_day year..last_day year]"
    by (simp add: generate_year_dates_upto)
qed

lemma set_year_dates: "set [first_day year..last_day year] = {d. in_year year d}"
  by (auto simp: in_year_def)

lemma compute_off_days_loop_eq:
  "compute_off_days_loop ds wd off = off \<union> {d \<in> set ds. weekday d \<notin> set wd}"
  by (induction ds arbitrary: off) auto

lemma compute_off_days_eq:
  "1 \<le> year \<Longrightarrow> year \<le> 9998 \<Longrightarrow>
   compute_off_days year holidays wd
     = Inr (holidays \<union> {d. in_year year d \<and> weekday d \<notin> set wd})"
  by (simp add: compute_off_days_def generate_year_dates_upto compute_off_days_loop_eq in_year_def)






section \<open>From the holidays to the suggestions\<close>

lemma main_suggestions_eq:
  "1 \<le> year \<Longrightarrow> year \<le> 9998 \<Longrightarrow>
   main_suggestions year holidays wd t =
     find_leave_suggestions_loop [first_day year..last_day year]
       (holidays \<union> {d. in_year year d \<and> weekday d \<notin> set wd}) wd t []"
  by (simp add: main_suggestions_def compute_off_days_eq find_leave_suggestions_def
      generate_year_dates_upto)

lemma main_suggestions_error:
  "generate_year_dates year = Inl e \<Longrightarrow> main_suggestions year holidays wd t = Inl e"
  by (simp add: main_suggestions_def compute_off_days_def)


lemma year_off_days_inside:
  assumes "2 \<le> year" "year \<le> 9998"
  shows "1 \<notin> {d. in_year year d \<and> P d}" "MAXORDINAL \<notin> {d. in_year year d \<and> P d}"
  using year_dates_inside [OF assms, of 1] year_dates_inside [OF assms, of MAXORDINAL]
  by (auto simp: in_year_def)



text \<open>Two Sundays are never one or two days apart.\<close>

lemma weekday_range: "0 \<le> weekday d" "weekday d \<le> 6"
  by (simp_all add: weekday_def)

lemma six_day_week:
  assumes "set wd = {0, 1, 2, 3, 4, 5}"
  shows "weekday d \<notin> set wd \<longleftrightarrow> weekday d = 6"
proof -
  have "w \<notin> {0, 1, 2, 3, 4, 5} \<longleftrightarrow> w = 6" if "0 \<le> w" "w \<le> 6" for w :: int
    using that by simp arith
  from this [OF weekday_range] assms show ?thesis by simp
qed

lemma weekday_next: "weekday d = 6 \<Longrightarrow> weekday (d + 1) \<noteq> 6"
  unfolding weekday_def by presburger

lemma weekday_next2: "weekday d = 6 \<Longrightarrow> weekday (d + 2) \<noteq> 6"
  unfolding weekday_def by presburger

lemma sundays_block_short:
  assumes sundays: "\<forall>x\<in>off. weekday x = 6"
    and block: "get_continuous_block d (insert d off) = Inr (s, e, n)"
  shows "n \<le> 2"
proof (rule ccontr)
  assume "\<not> n \<le> 2"
  note b = get_continuous_block_bounds [OF block]
  from \<open>\<not> n \<le> 2\<close> b(3) have far: "s + 2 \<le> e" by (simp add: days_between_def)
  have sunday: "weekday x = 6" if "s \<le> x" "x \<le> e" "x \<noteq> d" for x
    using that b(6) sundays by auto
  consider "d = s" | "d = s + 1" | "s + 2 \<le> d" using b(1) by linarith
  then show False
  proof cases
    case 1
    from 1 far have "weekday (s + 1) = 6" "weekday (s + 1 + 1) = 6"
      by (auto intro!: sunday)
    with weekday_next [of "s + 1"] show False by simp
  next
    case 2
    from 2 far have "weekday s = 6" "weekday (s + 2) = 6"
      by (auto intro!: sunday)
    with weekday_next2 [of s] show False by simp
  next
    case 3
    from 3 far have "weekday s = 6" "weekday (s + 1) = 6"
      by (auto intro!: sunday)
    with weekday_next [of s] show False by simp
  qed
qed

lemma sundays_body_nothing:
  assumes "\<forall>x\<in>off. weekday x = 6" "3 \<le> t"
    and "find_leave_suggestions_body d off wd t = Inr r"
  shows "r = None"
proof (cases r)
  case None
  then show ?thesis .
next
  case (Some s)
  with assms(3) body_Some [of d off wd t s]
  have block: "get_continuous_block d (insert d off)
                 = Inr (block_start s, block_end s, block_length s)"
    and long: "t \<le> block_length s" by simp_all
  from sundays_block_short [OF assms(1) block] have "block_length s \<le> 2" .
  with long assms(2) show ?thesis by simp
qed

lemma sundays_year_nothing:
  assumes "2 \<le> year" "year \<le> 9998" "3 \<le> t"
  shows "find_leave_suggestions_loop [first_day year..last_day year]
           {d. in_year year d \<and> weekday d = 6} wd t [] = Inr []"
proof -
  let ?off = "{d. in_year year d \<and> weekday d = 6}"
  have sundays: "\<forall>x\<in>?off. weekday x = 6" by simp
  note inside = year_off_days_inside [OF assms(1,2), of "\<lambda>d. weekday d = 6"]
  have "\<forall>d\<in>set [first_day year..last_day year].
          find_leave_suggestions_body d ?off wd t = Inr None"
  proof
    fix d assume "d \<in> set [first_day year..last_day year]"
    then have "first_day year \<le> d" "d \<le> last_day year" by simp_all
    from year_dates_inside [OF assms(1,2) this] inside
    obtain r where r: "find_leave_suggestions_body d ?off wd t = Inr r"
      using body_returns [of d ?off wd t] by blast
    from sundays_body_nothing [OF sundays assms(3) r] r
    show "find_leave_suggestions_body d ?off wd t = Inr None" by simp
  qed
  from loop_nothing [OF this] show ?thesis .
qed

text \<open>2023-01-07 is day 738527, a Saturday; 2023-01-08 is the Sunday after it.\<close>

lemma saturday_before_sunday:
  "find_leave_suggestions_body 738527
     ({} \<union> {d. in_year 2023 d \<and> weekday d \<notin> set [0, 1, 2, 3, 4, 5]}) [0, 1, 2, 3, 4, 5] 2
   = Inr (Some \<lparr>leave_day = 738527, block_start = 738527, block_end = 738528,
                 block_length = 2\<rparr>)"
  by (simp add: find_leave_suggestions_body_def neighbour_is_off_def get_continuous_block_def
      date_sub_def date_add_def MAXORDINAL_def days_between_def weekday_def in_year_def
      first_day_def last_day_def days_before_year_def
      expand_backwards.simps expand_forwards.simps)

lemma expand_backwards_overflow:
  "valid_date prev \<Longrightarrow> (\<forall>x. 1 \<le> x \<and> x \<le> prev \<longrightarrow> x \<in> S) \<Longrightarrow>
   expand_backwards S start prev = Inl OverflowError"
proof (induction S start prev rule: expand_backwards.induct)
  case (1 S start prev)
  from "1.prems" have mem: "prev \<in> S" by (simp add: valid_date_def)
  show ?case
  proof (cases "prev = 1")
    case True
    with mem show ?thesis
      by (subst expand_backwards.simps) (simp add: date_sub_def date_add_def)
  next
    case False
    with "1.prems"(1) have v: "valid_date (prev - 1)" by (simp add: valid_date_def)
    then have sub: "date_sub prev 1 = Inr (prev - 1)" by (simp add: date_sub_Inr)
    from "1.prems"(2) have "\<forall>x. 1 \<le> x \<and> x \<le> prev - 1 \<longrightarrow> x \<in> S" by simp
    from "1.IH" [OF mem sub v this] mem sub show ?thesis
      by (subst expand_backwards.simps) simp
  qed
qed

lemma body_overflow_below:
  assumes "weekday d \<in> set wd" "d \<notin> off" "valid_date (d - 1)"
    and "\<forall>x. 1 \<le> x \<and> x < d \<longrightarrow> x \<in> off"
  shows "find_leave_suggestions_body d off wd t = Inl OverflowError"
proof -
  from assms(3,4) have prev: "d - 1 \<in> off" by (simp add: valid_date_def)
  from assms(3) have sub: "date_sub d 1 = Inr (d - 1)" by (simp add: date_sub_Inr)
  from assms(4) have "\<forall>x. 1 \<le> x \<and> x \<le> d - 1 \<longrightarrow> x \<in> insert d off" by simp
  from expand_backwards_overflow [OF assms(3) this]
  have "get_continuous_block d (insert d off) = Inl OverflowError"
    by (simp add: get_continuous_block_def sub)
  with assms(1,2) prev sub show ?thesis
    by (simp add: find_leave_suggestions_body_def neighbour_is_off_def)
qed

lemma first_monday_overflow:
  "0 \<in> set wd \<Longrightarrow>
   find_leave_suggestions_body 1 off wd t = (if 1 \<in> off then Inr None else Inl OverflowError)"
  by (simp add: find_leave_suggestions_body_def neighbour_is_off_def date_sub_def date_add_def
      weekday_def)

lemma year_dates_Cons:
  "[first_day year..last_day year] = first_day year # [first_day year + 1..last_day year]"
  using first_day_le_last_day [of year] by (rule upto_rec1)

lemma first_year_overflow:
  assumes "0 \<in> set wd" "1 \<notin> off"
  shows "find_leave_suggestions_loop [first_day 1..last_day 1] off wd t acc = Inl OverflowError"
proof -
  have "first_day 1 = 1" by (simp add: first_day_def days_before_year_def)
  with year_dates_Cons [of 1] first_monday_overflow [OF assms(1), of off t] assms(2)
  show ?thesis by (simp del: upto.simps)
qed



section \<open>The functions of sample.py\<close>

declare sample_generate_year_dates_loop.simps [simp del]

lemma sample_generate_year_dates_loop_eq:
  "sample_generate_year_dates_loop current fin dates = generate_year_dates_loop current fin dates"
proof (induction current fin dates rule: generate_year_dates_loop.induct)
  case (1 current fin dates)
  show ?case
    by (subst sample_generate_year_dates_loop.simps, subst generate_year_dates_loop.simps)
       (simp add: "1.IH" split: sum.splits)
qed

lemma sample_generate_year_dates_eq: "sample_generate_year_dates year = generate_year_dates year"
  unfolding sample_generate_year_dates_def generate_year_dates_def
    sample_generate_year_dates_loop_eq
  by (rule refl)

lemma sample_compute_off_days_loop_eq:
  "sample_compute_off_days_loop dates wd off = compute_off_days_loop dates wd off"
  by (induction dates arbitrary: off) simp_all






lemma sample_add_sundays_loop_eq:
  "sample_add_sundays_loop dates off = off \<union> {d \<in> set dates. weekday d = 6}"
  by (induction dates arbitrary: off) auto

text \<open>With the flag set, the Sundays of the year are added to what the first script computes.\<close>

lemma sample_compute_off_days_sundays:
  "sample_compute_off_days year holidays wd True = Inr off \<Longrightarrow>
   \<exists>off'. compute_off_days year holidays wd = Inr off'
     \<and> off = off' \<union> {d. in_year year d \<and> weekday d = 6}"
proof -
  assume a: "sample_compute_off_days year holidays wd True = Inr off"
  then obtain dates where gen: "generate_year_dates year = Inr dates"
    by (auto simp: sample_compute_off_days_def sample_generate_year_dates_eq split: sum.splits)
  note y = generate_year_dates_Inr [OF gen]
  from a gen y show ?thesis
    by (auto simp: sample_compute_off_days_def sample_generate_year_dates_eq compute_off_days_def
        sample_compute_off_days_loop_eq compute_off_days_loop_eq sample_add_sundays_loop_eq
        in_year_def)
qed

section \<open>The scan on the heap\<close>

lemma body_heap:
  assumes "off < length h"
    and "find_leave_suggestions_body_heap h d off wd t = (h', cs, r)"
  shows "find_leave_suggestions_body d (h ! off) wd t = r"
    and "(h' = h \<and> cs = [] \<and> (\<forall>s. r \<noteq> Inr (Some s)))
         \<or> (h' = h @ [insert d (h ! off)] \<and> cs = [(d, length h, h')] \<and> d \<notin> h ! off
             \<and> (\<forall>s. r = Inr (Some s) \<longrightarrow>
                   get_continuous_block d (h' ! length h)
                     = Inr (block_start s, block_end s, block_length s)))"
proof -
  have fresh: "(h @ [h ! off])[length h := insert d ((h @ [h ! off]) ! length h)]
               = h @ [insert d (h ! off)]"
    by simp
  from assms(2) show "find_leave_suggestions_body d (h ! off) wd t = r"
    by (auto simp: find_leave_suggestions_body_heap_def find_leave_suggestions_body_def
        get_continuous_block_heap_def heap_copy_def heap_add_def Let_def fresh
        split: if_splits sum.splits prod.splits)
  from assms(2) show "(h' = h \<and> cs = [] \<and> (\<forall>s. r \<noteq> Inr (Some s)))
         \<or> (h' = h @ [insert d (h ! off)] \<and> cs = [(d, length h, h')] \<and> d \<notin> h ! off
             \<and> (\<forall>s. r = Inr (Some s) \<longrightarrow>
                   get_continuous_block d (h' ! length h)
                     = Inr (block_start s, block_end s, block_length s)))"
    by (auto simp: find_leave_suggestions_body_heap_def get_continuous_block_heap_def
        heap_copy_def heap_add_def Let_def fresh
        split: if_splits sum.splits prod.splits)
qed

text \<open>
  What the loop does to the heap and which calls it makes, from any heap, list of
  suggestions and list of calls it is entered with.
\<close>

lemma loop_heap:
  assumes "off < length h"
    and "find_leave_suggestions_loop_heap h ds off wd t acc calls = (h', calls', r)"
  shows "r = find_leave_suggestions_loop ds (h ! off) wd t acc
         \<and> (\<exists>new. calls' = calls @ new
               \<and> h' = h @ map (\<lambda>c. insert (fst c) (h ! off)) new
               \<and> map (\<lambda>c. fst (snd c)) new = [length h..<length h + length new]
               \<and> (\<forall>c\<in>set new. fst c \<notin> h ! off \<and> take (length h) (snd (snd c)) = h
                      \<and> fst (snd c) < length (snd (snd c))
                      \<and> snd (snd c) ! fst (snd c) = insert (fst c) (h ! off))
               \<and> (\<forall>xs. r = Inr xs \<longrightarrow>
                     (\<exists>ys. xs = acc @ ys
                        \<and> (\<forall>s\<in>set ys. \<exists>c\<in>set new. fst c = leave_day s
                               \<and> get_continuous_block (fst c) (snd (snd c) ! fst (snd c))
                                   = Inr (block_start s, block_end s, block_length s)))))"
  using assms
proof (induction ds arbitrary: h acc calls)
  case Nil
  then show ?case by auto
next
  case (Cons d ds)
  let ?O = "h ! off"
  obtain h1 cs r1 where b: "find_leave_suggestions_body_heap h d off wd t = (h1, cs, r1)"
    by (cases "find_leave_suggestions_body_heap h d off wd t") auto
  note bh = body_heap [OF Cons.prems(1) b]
  from bh(2) have h1: "h1 = h @ map (\<lambda>c. insert (fst c) ?O) cs"
    and refs: "map (\<lambda>c. fst (snd c)) cs = [length h..<length h + length cs]"
    and ok: "\<forall>c\<in>set cs. fst c \<notin> ?O \<and> take (length h) (snd (snd c)) = h
                \<and> fst (snd c) < length (snd (snd c))
                \<and> snd (snd c) ! fst (snd c) = insert (fst c) ?O"
    by auto
  from h1 Cons.prems(1) have off1: "off < length h1" "h1 ! off = ?O"
    and len1: "length h1 = length h + length cs" and take1: "take (length h) h1 = h"
    by (simp_all add: nth_append)
  show ?case
  proof (cases r1)
    case (Inl e)
    with b Cons.prems(2) have "h' = h1" "calls' = calls @ cs" "r = Inl e" by simp_all
    moreover from bh(1) Inl have "find_leave_suggestions_body d ?O wd t = Inl e" by simp
    ultimately show ?thesis
      using h1 refs ok by (intro conjI exI [of _ cs]) simp_all
  next
    case (Inr o1)
    define acc1 where "acc1 = (case o1 of None \<Rightarrow> acc | Some s \<Rightarrow> acc @ [s])"
    with b Inr Cons.prems(2) have rest:
      "find_leave_suggestions_loop_heap h1 ds off wd t acc1 (calls @ cs) = (h', calls', r)"
      by (cases o1) simp_all
    from Cons.IH [OF off1(1) rest] obtain new where
      pure: "r = find_leave_suggestions_loop ds (h1 ! off) wd t acc1"
      and calls': "calls' = (calls @ cs) @ new"
      and h': "h' = h1 @ map (\<lambda>c. insert (fst c) (h1 ! off)) new"
      and refs': "map (\<lambda>c. fst (snd c)) new = [length h1..<length h1 + length new]"
      and ok': "\<forall>c\<in>set new. fst c \<notin> h1 ! off \<and> take (length h1) (snd (snd c)) = h1
                   \<and> fst (snd c) < length (snd (snd c))
                   \<and> snd (snd c) ! fst (snd c) = insert (fst c) (h1 ! off)"
      and sug': "\<forall>xs. r = Inr xs \<longrightarrow>
                     (\<exists>ys. xs = acc1 @ ys
                        \<and> (\<forall>s\<in>set ys. \<exists>c\<in>set new. fst c = leave_day s
                               \<and> get_continuous_block (fst c) (snd (snd c) ! fst (snd c))
                                   = Inr (block_start s, block_end s, block_length s)))"
      by blast
    have 1: "r = find_leave_suggestions_loop (d # ds) ?O wd t acc"
      using pure off1(2) bh(1) Inr acc1_def by (cases o1) simp_all
    have 2: "calls' = calls @ (cs @ new)" using calls' by simp
    have 3: "h' = h @ map (\<lambda>c. insert (fst c) ?O) (cs @ new)"
      using h' h1 off1(2) by simp
    have 4: "map (\<lambda>c. fst (snd c)) (cs @ new) = [length h..<length h + length (cs @ new)]"
      using refs refs' len1 upt_add_eq_append [of "length h" "length h + length cs" "length new"]
      by (simp add: add.assoc)
    have 5: "\<forall>c\<in>set (cs @ new). fst c \<notin> ?O \<and> take (length h) (snd (snd c)) = h
                \<and> fst (snd c) < length (snd (snd c))
                \<and> snd (snd c) ! fst (snd c) = insert (fst c) ?O"
    proof
      fix c assume "c \<in> set (cs @ new)"
      then consider "c \<in> set cs" | "c \<in> set new" by auto
      then show "fst c \<notin> ?O \<and> take (length h) (snd (snd c)) = h
                \<and> fst (snd c) < length (snd (snd c))
                \<and> snd (snd c) ! fst (snd c) = insert (fst c) ?O"
      proof cases
        case 1
        with ok show ?thesis by blast
      next
        case 2
        with ok' off1(2) have c: "fst c \<notin> ?O" "take (length h1) (snd (snd c)) = h1"
          "fst (snd c) < length (snd (snd c))" "snd (snd c) ! fst (snd c) = insert (fst c) ?O"
          by auto
        have "take (length h) (snd (snd c)) = take (length h) (take (length h1) (snd (snd c)))"
          using len1 by (simp add: min_def)
        with c(2) take1 have "take (length h) (snd (snd c)) = h" by simp
        with c show ?thesis by simp
      qed
    qed
    have 6: "\<forall>xs. r = Inr xs \<longrightarrow>
               (\<exists>ys. xs = acc @ ys
                  \<and> (\<forall>s\<in>set ys. \<exists>c\<in>set (cs @ new). fst c = leave_day s
                         \<and> get_continuous_block (fst c) (snd (snd c) ! fst (snd c))
                             = Inr (block_start s, block_end s, block_length s)))"
    proof (intro allI impI)
      fix xs assume "r = Inr xs"
      with sug' obtain ys where ys: "xs = acc1 @ ys"
        "\<forall>s\<in>set ys. \<exists>c\<in>set new. fst c = leave_day s
            \<and> get_continuous_block (fst c) (snd (snd c) ! fst (snd c))
                = Inr (block_start s, block_end s, block_length s)"
        by blast
      show "\<exists>ys. xs = acc @ ys
                  \<and> (\<forall>s\<in>set ys. \<exists>c\<in>set (cs @ new). fst c = leave_day s
                         \<and> get_continuous_block (fst c) (snd (snd c) ! fst (snd c))
                             = Inr (block_start s, block_end s, block_length s))"
      proof (cases o1)
        case None
        with ys acc1_def show ?thesis by auto
      next
        case (Some s)
        with bh(1) Inr have "find_leave_suggestions_body d ?O wd t = Inr (Some s)" by simp
        from body_Some [OF this] have day: "leave_day s = d" by simp
        from bh(2) Inr Some have "cs = [(d, length h, h1)]"
          and "get_continuous_block d (h1 ! length h)
                 = Inr (block_start s, block_end s, block_length s)"
          by auto
        with day have "\<exists>c\<in>set (cs @ new). fst c = leave_day s
            \<and> get_continuous_block (fst c) (snd (snd c) ! fst (snd c))
                = Inr (block_start s, block_end s, block_length s)"
          by simp
        with ys Some acc1_def show ?thesis
          by (intro exI [of _ "s # ys"]) auto
      qed
    qed
    from 1 2 3 4 5 6 show ?thesis by blast
  qed
qed

text \<open>When the body raises nothing, it makes a call exactly for a candidate.\<close>

lemma body_heap_calls:
  assumes "find_leave_suggestions_body_heap h d off wd t = (h', cs, Inr r)"
  shows "map fst cs
         = filter (\<lambda>d. weekday d \<in> set wd \<and> d \<notin> h ! off
                        \<and> (d - 1 \<in> h ! off \<or> d + 1 \<in> h ! off)) [d]"
  using assms
  by (auto simp: find_leave_suggestions_body_heap_def get_continuous_block_heap_def
      heap_copy_def heap_add_def Let_def
      split: if_splits sum.splits prod.splits dest: neighbour_is_off_Inr)

lemma loop_heap_calls:
  assumes "off < length h"
    and "find_leave_suggestions_loop_heap h ds off wd t acc calls = (h', calls', Inr xs)"
  shows "\<exists>new. calls' = calls @ new
           \<and> map fst new
               = filter (\<lambda>d. weekday d \<in> set wd \<and> d \<notin> h ! off
                              \<and> (d - 1 \<in> h ! off \<or> d + 1 \<in> h ! off)) ds"
  using assms
proof (induction ds arbitrary: h acc calls)
  case Nil
  then show ?case by simp
next
  case (Cons d ds)
  obtain h1 cs r1 where b: "find_leave_suggestions_body_heap h d off wd t = (h1, cs, r1)"
    by (cases "find_leave_suggestions_body_heap h d off wd t") auto
  from body_heap(2) [OF Cons.prems(1) b] Cons.prems(1)
  have off1: "off < length h1" "h1 ! off = h ! off"
    by (auto simp: nth_append)
  from b Cons.prems(2) obtain o1 where r1: "r1 = Inr o1"
    by (cases r1) auto
  define acc1 where "acc1 = (case o1 of None \<Rightarrow> acc | Some s \<Rightarrow> acc @ [s])"
  with b r1 Cons.prems(2) have rest:
    "find_leave_suggestions_loop_heap h1 ds off wd t acc1 (calls @ cs) = (h', calls', Inr xs)"
    by (cases o1) simp_all
  from Cons.IH [OF off1(1) rest] off1(2) obtain new where
    "calls' = (calls @ cs) @ new"
    "map fst new = filter (\<lambda>d. weekday d \<in> set wd \<and> d \<notin> h ! off
                              \<and> (d - 1 \<in> h ! off \<or> d + 1 \<in> h ! off)) ds"
    by auto
  moreover from b r1 have "map fst cs
      = filter (\<lambda>d. weekday d \<in> set wd \<and> d \<notin> h ! off
                     \<and> (d - 1 \<in> h ! off \<or> d + 1 \<in> h ! off)) [d]"
    by (simp add: body_heap_calls)
  ultimately show ?case
    by (intro exI [of _ "cs @ new"]) simp
qed

section \<open>When the scan returns\<close>

lemma expand_backwards_gap:
  "expand_backwards S start prev = Inr s \<Longrightarrow> start = prev + 1 \<Longrightarrow> valid_date prev \<Longrightarrow>
   valid_date (s - 1)"
proof (induction S start prev rule: expand_backwards.induct)
  case (1 S start prev)
  show ?case
  proof (cases "prev \<in> S")
    case True
    with "1.prems"(1) obtain prev' where sub: "date_sub prev 1 = Inr prev'"
      and rec: "expand_backwards S prev prev' = Inr s"
      by (subst (asm) expand_backwards.simps) (auto split: sum.splits)
    from sub have "prev = prev' + 1" "valid_date prev'" by (simp_all add: date_sub_Inr)
    from "1.IH" [OF True sub rec this] show ?thesis .
  next
    case False
    with "1.prems" show ?thesis
      by (subst (asm) expand_backwards.simps) auto
  qed
qed

lemma expand_forwards_gap:
  "expand_forwards S fin nxt = Inr e \<Longrightarrow> nxt = fin + 1 \<Longrightarrow> valid_date nxt \<Longrightarrow>
   valid_date (e + 1)"
proof (induction S fin nxt rule: expand_forwards.induct)
  case (1 S fin nxt)
  show ?case
  proof (cases "nxt \<in> S")
    case True
    with "1.prems"(1) obtain nxt' where add: "date_add nxt 1 = Inr nxt'"
      and rec: "expand_forwards S nxt nxt' = Inr e"
      by (subst (asm) expand_forwards.simps) (auto split: sum.splits)
    from add have "nxt' = nxt + 1" "valid_date nxt'" by (simp_all add: date_add_Inr)
    from "1.IH" [OF True add rec this] show ?thesis .
  next
    case False
    with "1.prems" show ?thesis
      by (subst (asm) expand_forwards.simps) auto
  qed
qed

text \<open>The walk returns exactly when it finds a date outside the set on each side.\<close>

lemma get_continuous_block_returns_iff:
  "(\<exists>r. get_continuous_block c S = Inr r) \<longleftrightarrow>
     (\<exists>lo. valid_date lo \<and> lo < c \<and> lo \<notin> S) \<and> (\<exists>hi. valid_date hi \<and> c < hi \<and> hi \<notin> S)"
proof
  assume "\<exists>r. get_continuous_block c S = Inr r"
  then obtain s e n where r: "get_continuous_block c S = Inr (s, e, n)"
    by (metis prod_cases3)
  then have v: "valid_date (c - 1)" "valid_date (c + 1)"
    and b: "expand_backwards S c (c - 1) = Inr s" and f: "expand_forwards S c (c + 1) = Inr e"
    by (simp_all add: get_continuous_block_Inr)
  note bounds = get_continuous_block_bounds [OF r]
  from expand_backwards_gap [OF b _ v(1)] bounds(1,4)
  have "valid_date (s - 1) \<and> s - 1 < c \<and> s - 1 \<notin> S" by simp
  moreover from expand_forwards_gap [OF f _ v(2)] bounds(2,5)
  have "valid_date (e + 1) \<and> c < e + 1 \<and> e + 1 \<notin> S" by simp
  ultimately show "(\<exists>lo. valid_date lo \<and> lo < c \<and> lo \<notin> S)
      \<and> (\<exists>hi. valid_date hi \<and> c < hi \<and> hi \<notin> S)" by blast
next
  assume "(\<exists>lo. valid_date lo \<and> lo < c \<and> lo \<notin> S) \<and> (\<exists>hi. valid_date hi \<and> c < hi \<and> hi \<notin> S)"
  then obtain lo hi where "valid_date lo" "lo < c" "lo \<notin> S" "valid_date hi" "c < hi" "hi \<notin> S"
    by blast
  from get_continuous_block_returns [OF this] show "\<exists>r. get_continuous_block c S = Inr r"
    by blast
qed

text \<open>
  A date of the scan is in the way when it is a working weekday that is not off and, on
  one side of it, every date down to 0001-01-01 or up to 9999-12-31 is off.
\<close>

lemma body_returns_iff:
  assumes "valid_date d" "d < MAXORDINAL"
  shows "(\<exists>r. find_leave_suggestions_body d off wd t = Inr r) \<longleftrightarrow>
     (weekday d \<in> set wd \<and> d \<notin> off \<longrightarrow>
        (\<exists>lo. valid_date lo \<and> lo < d \<and> lo \<notin> off) \<and> (\<exists>hi. valid_date hi \<and> d < hi \<and> hi \<notin> off))"
proof (cases "weekday d \<in> set wd \<and> d \<notin> off")
  case False
  then show ?thesis by (auto simp: body_not_working)
next
  case True
  from assms have vn: "valid_date (d + 1)" by (simp add: valid_date_def)
  show ?thesis
  proof (cases "d = 1")
    case True
    have "find_leave_suggestions_body 1 off wd t = Inl OverflowError" if "weekday 1 \<in> set wd" "1 \<notin> off"
      using that by (simp add: find_leave_suggestions_body_def neighbour_is_off_def date_sub_def
          date_add_def)
    with True \<open>weekday d \<in> set wd \<and> d \<notin> off\<close> show ?thesis
      by (auto simp: valid_date_def)
  next
    case False
    with assms have vp: "valid_date (d - 1)" by (simp add: valid_date_def)
    note nb = neighbour_is_off_valid [OF vp vn, of off]
    show ?thesis
    proof (cases "d - 1 \<in> off \<or> d + 1 \<in> off")
      case touching: True
      have "(\<exists>r. find_leave_suggestions_body d off wd t = Inr r)
            \<longleftrightarrow> (\<exists>r. get_continuous_block d (insert d off) = Inr r)"
        using True nb touching
        by (auto simp: find_leave_suggestions_body_def split: sum.splits prod.splits)
      also have "\<dots> \<longleftrightarrow> (\<exists>lo. valid_date lo \<and> lo < d \<and> lo \<notin> insert d off)
                    \<and> (\<exists>hi. valid_date hi \<and> d < hi \<and> hi \<notin> insert d off)"
        by (rule get_continuous_block_returns_iff)
      also have "\<dots> \<longleftrightarrow> (\<exists>lo. valid_date lo \<and> lo < d \<and> lo \<notin> off)
                    \<and> (\<exists>hi. valid_date hi \<and> d < hi \<and> hi \<notin> off)"
        by auto
      finally show ?thesis using True by simp
    next
      case apart: False
      with True nb have "find_leave_suggestions_body d off wd t = Inr None"
        by (simp add: find_leave_suggestions_body_def)
      moreover from apart vp vn have
        "(\<exists>lo. valid_date lo \<and> lo < d \<and> lo \<notin> off) \<and> (\<exists>hi. valid_date hi \<and> d < hi \<and> hi \<notin> off)"
        by (intro conjI exI [of _ "d - 1"] exI [of _ "d + 1"]) simp_all
      ultimately show ?thesis by simp
    qed
  qed
qed

lemma loop_returns_iff:
  "(\<exists>xs. find_leave_suggestions_loop ds off wd t acc = Inr xs) \<longleftrightarrow>
   (\<forall>d\<in>set ds. \<exists>r. find_leave_suggestions_body d off wd t = Inr r)"
proof
  show "\<exists>xs. find_leave_suggestions_loop ds off wd t acc = Inr xs"
    if "\<forall>d\<in>set ds. \<exists>r. find_leave_suggestions_body d off wd t = Inr r"
    using that by (rule loop_returns)
  show "\<forall>d\<in>set ds. \<exists>r. find_leave_suggestions_body d off wd t = Inr r"
    if "\<exists>xs. find_leave_suggestions_loop ds off wd t acc = Inr xs"
    using that
  proof (induction ds arbitrary: acc)
    case Nil
    then show ?case by simp
  next
    case (Cons d ds)
    then obtain xs where run: "find_leave_suggestions_loop (d # ds) off wd t acc = Inr xs"
      by blast
    then obtain r where r: "find_leave_suggestions_body d off wd t = Inr r"
      by (cases "find_leave_suggestions_body d off wd t") simp_all
    with run obtain acc' where "find_leave_suggestions_loop ds off wd t acc' = Inr xs"
      by (cases r) auto
    with Cons.IH [of acc'] r show ?case by auto
  qed
qed

lemma year_dates_valid:
  assumes "1 \<le> year" "year \<le> 9998" "in_year year d"
  shows "valid_date d" "d < MAXORDINAL"
  using assms first_day_positive [of year] last_day_bound [of year]
  by (simp_all add: in_year_def valid_date_def MAXORDINAL_def)

lemma find_leave_suggestions_returns_iff:
  "(\<exists>suggestions. find_leave_suggestions year off wd t = Inr suggestions) \<longleftrightarrow>
     1 \<le> year \<and> year \<le> 9998
     \<and> (\<forall>d. in_year year d \<and> weekday d \<in> set wd \<and> d \<notin> off \<longrightarrow>
           (\<exists>lo. valid_date lo \<and> lo < d \<and> lo \<notin> off)
           \<and> (\<exists>hi. valid_date hi \<and> d < hi \<and> hi \<notin> off))"
proof (cases "1 \<le> year \<and> year \<le> 9998")
  case False
  have "\<not> (\<exists>suggestions. find_leave_suggestions year off wd t = Inr suggestions)"
  proof
    assume "\<exists>suggestions. find_leave_suggestions year off wd t = Inr suggestions"
    then obtain dates where "generate_year_dates year = Inr dates"
      by (auto simp: find_leave_suggestions_def split: sum.splits)
    from generate_year_dates_Inr(1,2) [OF this] False show False by simp
  qed
  with False show ?thesis by blast
next
  case True
  then have gen: "generate_year_dates year = Inr [first_day year..last_day year]"
    by (simp add: generate_year_dates_upto)
  have body: "(\<exists>r. find_leave_suggestions_body d off wd t = Inr r) \<longleftrightarrow>
     (weekday d \<in> set wd \<and> d \<notin> off \<longrightarrow>
        (\<exists>lo. valid_date lo \<and> lo < d \<and> lo \<notin> off) \<and> (\<exists>hi. valid_date hi \<and> d < hi \<and> hi \<notin> off))"
    if "in_year year d" for d
  proof (rule body_returns_iff)
    from True that show "valid_date d" "d < MAXORDINAL"
      using year_dates_valid [of year d] by simp_all
  qed
  have "(\<forall>d\<in>set [first_day year..last_day year].
                \<exists>r. find_leave_suggestions_body d off wd t = Inr r)
             \<longleftrightarrow> (\<forall>d. in_year year d \<and> weekday d \<in> set wd \<and> d \<notin> off \<longrightarrow>
                   (\<exists>lo. valid_date lo \<and> lo < d \<and> lo \<notin> off)
                   \<and> (\<exists>hi. valid_date hi \<and> d < hi \<and> hi \<notin> off))"
    (is "?L \<longleftrightarrow> ?R")
  proof
    assume l: ?L
    show ?R
    proof (intro allI impI)
      fix d assume d: "in_year year d \<and> weekday d \<in> set wd \<and> d \<notin> off"
      then have "d \<in> set [first_day year..last_day year]" by (simp add: in_year_def)
      with l have "\<exists>r. find_leave_suggestions_body d off wd t = Inr r" by (rule bspec)
      with body [of d] d
      show "(\<exists>lo. valid_date lo \<and> lo < d \<and> lo \<notin> off)
            \<and> (\<exists>hi. valid_date hi \<and> d < hi \<and> hi \<notin> off)" by simp
    qed
  next
    assume r: ?R
    show ?L
    proof
      fix d assume "d \<in> set [first_day year..last_day year]"
      then have y: "in_year year d" by (simp add: in_year_def)
      from r have "in_year year d \<and> weekday d \<in> set wd \<and> d \<notin> off \<longrightarrow>
          (\<exists>lo. valid_date lo \<and> lo < d \<and> lo \<notin> off)
          \<and> (\<exists>hi. valid_date hi \<and> d < hi \<and> hi \<notin> off)" by (rule spec)
      with y body [OF y]
      show "\<exists>r. find_leave_suggestions_body d off wd t = Inr r" by simp
    qed
  qed
  with True gen loop_returns_iff [of "[first_day year..last_day year]" off wd t "[]"]
  show ?thesis
    by (simp add: find_leave_suggestions_def)
qed

section \<open>The two CSV parsers\<close>


section \<open>Claims\<close>

subsection \<open>C1: the block returned for an anchor that is off\<close>

text \<open>
  C1 as stated is about every off-day set and every anchor in it. The walk is date
  arithmetic, and \<^verbatim>\<open>datetime.date\<close> runs from 0001-01-01 to 9999-12-31: for the
  anchor 0001-01-01 the first statement, \<^verbatim>\<open>prev = candidate - delta\<close>, raises
  \<^verbatim>\<open>OverflowError\<close>; for the anchor 0001-01-02 with 0001-01-01 off, the backward
  loop raises it after reaching 0001-01-01; for the anchor 9999-12-31,
  \<^verbatim>\<open>nxt = candidate + delta\<close> raises it. Nothing is returned.
\<close>

theorem get_continuous_block_first_date_counterexample:
  "date_ymd 1 1 1 = Inr 1 \<and> date_ymd 9999 12 31 = Inr 3652059
   \<and> 1 \<in> {1 :: date} \<and> get_continuous_block 1 {1} = Inl OverflowError
   \<and> 2 \<in> {1, 2 :: date} \<and> get_continuous_block 2 {1, 2} = Inl OverflowError
   \<and> 3652059 \<in> {3652059 :: date} \<and> get_continuous_block 3652059 {3652059} = Inl OverflowError"
  by (simp add: date_ymd_def fits_c_int_def MINYEAR_def MAXYEAR_def days_in_month_def days_before_month_def
      days_before_year_def is_leap_def get_continuous_block_def date_sub_def date_add_def
      MAXORDINAL_def expand_backwards.simps)

text \<open>
  C1 (amended): for every off-day set and every anchor \<open>a\<close> in it such that some date
  before \<open>a\<close> and some date after \<open>a\<close> are not in the set (the run of off days around
  \<open>a\<close> reaches neither 0001-01-01 nor 9999-12-31), \<open>get_continuous_block\<close> returns
  \<open>(blockStart, blockEnd, blockLength)\<close> with \<open>blockStart \<le> a \<le> blockEnd\<close>, every date
  of the inclusive interval in the set, neither \<open>blockStart - 1\<close> nor \<open>blockEnd + 1\<close> in
  the set, and \<open>blockLength\<close> the number of days from \<open>blockStart\<close> to \<open>blockEnd\<close> plus
  one.
\<close>

theorem get_continuous_block_maximal_run:
  assumes "a \<in> off_set"
    and "valid_date lo" "lo < a" "lo \<notin> off_set"
    and "valid_date hi" "a < hi" "hi \<notin> off_set"
  shows "\<exists>blockStart blockEnd blockLength.
           get_continuous_block a off_set = Inr (blockStart, blockEnd, blockLength)
           \<and> blockStart \<le> a \<and> a \<le> blockEnd
           \<and> (\<forall>d. blockStart \<le> d \<and> d \<le> blockEnd \<longrightarrow> d \<in> off_set)
           \<and> blockStart - 1 \<notin> off_set \<and> blockEnd + 1 \<notin> off_set
           \<and> blockLength = days_between blockEnd blockStart + 1"
proof -
  from get_continuous_block_returns [OF assms(2-7)]
  obtain s e where r: "get_continuous_block a off_set = Inr (s, e, days_between e s + 1)"
    by blast
  note b = get_continuous_block_bounds [OF r]
  have "d \<in> off_set" if "s \<le> d \<and> d \<le> e" for d
    using that b(6) assms(1) by (cases "d = a") auto
  with r b(1,2,4,5) show ?thesis
    by blast
qed

theorem get_continuous_block_maximal_run_witness:
  "738878 \<in> {738877, 738878, 738879 :: date}
   \<and> valid_date 738876 \<and> (738876 :: date) < 738878 \<and> 738876 \<notin> {738877, 738878, 738879 :: date}
   \<and> valid_date 738880 \<and> (738878 :: date) < 738880 \<and> 738880 \<notin> {738877, 738878, 738879 :: date}
   \<and> (\<exists>blockStart blockEnd blockLength.
         get_continuous_block 738878 {738877, 738878, 738879}
           = Inr (blockStart, blockEnd, blockLength)
         \<and> blockStart \<le> 738878 \<and> 738878 \<le> blockEnd
         \<and> (\<forall>d. blockStart \<le> d \<and> d \<le> blockEnd \<longrightarrow> d \<in> {738877, 738878, 738879})
         \<and> blockStart - 1 \<notin> {738877, 738878, 738879}
         \<and> blockEnd + 1 \<notin> {738877, 738878, 738879}
         \<and> blockLength = days_between blockEnd blockStart + 1)"
  using get_continuous_block_maximal_run
    [of 738878 "{738877, 738878, 738879}" 738876 738880]
  by (simp add: valid_date_def MAXORDINAL_def)

subsection \<open>C2: what is suggested is a working day next to an off day\<close>

text \<open>
  C2: whenever \<open>find_leave_suggestions\<close> returns a list, for any year, off-day set,
  working-day list and threshold, every record in it has a \<open>leave_day\<close> whose weekday
  is a working day, that is not in the off-day set passed in, and whose previous or
  next day is in that set. So no date already off and no date of a non-working weekday
  is suggested, whatever the threshold.
\<close>

theorem find_leave_suggestions_candidates:
  assumes "find_leave_suggestions year off_days working_days threshold = Inr suggestions"
    and "s \<in> set suggestions"
  shows "weekday (leave_day s) \<in> set working_days
         \<and> leave_day s \<notin> off_days
         \<and> (leave_day s - 1 \<in> off_days \<or> leave_day s + 1 \<in> off_days)"
proof -
  from assms(1) obtain dates where
    "find_leave_suggestions_loop dates off_days working_days threshold [] = Inr suggestions"
    by (auto simp: find_leave_suggestions_def split: sum.splits)
  from loop_members [OF this assms(2)] obtain d where
    "find_leave_suggestions_body d off_days working_days threshold = Inr (Some s)" by auto
  from body_Some [OF this] show ?thesis by simp
qed

theorem find_leave_suggestions_candidates_witness:
  "find_leave_suggestions 2023 {738879} [0, 1, 2, 3, 4] 2 =
     Inr [\<lparr>leave_day = 738880, block_start = 738879, block_end = 738880, block_length = 2\<rparr>]
   \<and> weekday 738880 \<in> set [0, 1, 2, 3, 4]
   \<and> 738880 \<notin> {738879 :: date}
   \<and> (738880 - 1 \<in> {738879 :: date} \<or> 738880 + 1 \<in> {738879 :: date})"
  using find_leave_suggestions_candidates [OF example_2023,
      of "\<lparr>leave_day = 738880, block_start = 738879, block_end = 738880, block_length = 2\<rparr>"]
    example_2023
  by simp

subsection \<open>C3: the six-day week without holidays\<close>

text \<open>
  C3 as stated says that the neighbour check always fails and that nothing is suggested
  for any threshold and any year. With only Sundays off, every Saturday and every Monday
  of the year is a working day next to an off day: the check passes and the block found
  has length 2, so a threshold of 2 or less gives suggestions (2023: Saturday
  2023-01-07 with the block 2023-01-07 to 2023-01-08). And for the year 1 the scan
  raises \<^verbatim>\<open>OverflowError\<close>: its first date, Monday 0001-01-01, is a candidate and
  has no previous day; for the year 9999 \<open>generate_year_dates\<close> raises it.
\<close>

theorem six_day_week_counterexample:
  "main_suggestions 2023 {} [0, 1, 2, 3, 4, 5] 2 \<noteq> Inr []
   \<and> main_suggestions 1 {} [0, 1, 2, 3, 4, 5] 4 = Inl OverflowError
   \<and> main_suggestions 9999 {} [0, 1, 2, 3, 4, 5] 4 = Inl OverflowError"
proof (intro conjI)
  let ?wd = "[0, 1, 2, 3, 4, 5] :: int list"
  show "main_suggestions 2023 {} ?wd 2 \<noteq> Inr []"
  proof
    assume "main_suggestions 2023 {} ?wd 2 = Inr []"
    then have run: "find_leave_suggestions_loop [first_day 2023..last_day 2023]
        ({} \<union> {d. in_year 2023 d \<and> weekday d \<notin> set ?wd}) ?wd 2 [] = Inr []"
      by (simp add: main_suggestions_eq)
    have "738527 \<in> set [first_day 2023..last_day 2023]"
      by (simp add: first_day_def last_day_def days_before_year_def)
    with loop_complete [OF run] saturday_before_sunday show False by fastforce
  qed
  have "1 \<notin> {} \<union> {d. in_year 1 d \<and> weekday d \<notin> set ?wd}"
    by (simp add: weekday_def)
  from first_year_overflow [OF _ this, of ?wd 4 "[]"]
  show "main_suggestions 1 {} ?wd 4 = Inl OverflowError"
    by (simp add: main_suggestions_eq)
  show "main_suggestions 9999 {} ?wd 4 = Inl OverflowError"
    by (simp add: main_suggestions_error generate_year_dates_max_year)
qed

text \<open>
  C3 (amended): for every year from 2 to 9998, with the working days 0 to 5 and no
  holidays, \<open>compute_off_days\<close> returns a set that holds only Sundays, no two of them
  adjacent, and \<open>find_leave_suggestions\<close> returns the empty list for every threshold
  of 3 or more.
\<close>

theorem six_day_week_no_suggestions:
  assumes "2 \<le> year" "year \<le> 9998"
    and "set working_days = {0, 1, 2, 3, 4, 5}"
    and "3 \<le> threshold"
  shows "\<exists>off_days. compute_off_days year {} working_days = Inr off_days
           \<and> (\<forall>d\<in>off_days. weekday d = 6)
           \<and> (\<forall>d\<in>off_days. d + 1 \<notin> off_days)
           \<and> find_leave_suggestions year off_days working_days threshold = Inr []"
proof -
  let ?off = "{d. in_year year d \<and> weekday d = 6}"
  from assms(1,2) have off: "compute_off_days year {} working_days = Inr ?off"
    by (simp add: compute_off_days_eq six_day_week [OF assms(3)])
  have apart: "\<forall>d\<in>?off. d + 1 \<notin> ?off"
    by (simp add: weekday_next)
  from assms(1,2) have "find_leave_suggestions year ?off working_days threshold = Inr []"
    by (simp add: find_leave_suggestions_def generate_year_dates_upto
        sundays_year_nothing [OF assms(1,2,4)])
  with off apart show ?thesis by simp
qed

theorem six_day_week_no_suggestions_witness:
  "(2 :: int) \<le> 2023 \<and> (2023 :: int) \<le> 9998
   \<and> set [0, 1, 2, 3, 4, 5 :: int] = {0, 1, 2, 3, 4, 5} \<and> (3 :: int) \<le> 4
   \<and> (\<exists>off_days. compute_off_days 2023 {} [0, 1, 2, 3, 4, 5] = Inr off_days
         \<and> find_leave_suggestions 2023 off_days [0, 1, 2, 3, 4, 5] 4 = Inr [])"
  using six_day_week_no_suggestions [of 2023 "[0, 1, 2, 3, 4, 5]" 4]
  by auto

subsection \<open>C4: holidays outside the target year\<close>




subsection \<open>C5: raising the threshold only removes suggestions\<close>

text \<open>
  C5: for a fixed year, off-day set and working-day list and thresholds \<open>t \<le> t'\<close>, the
  list returned for \<open>t'\<close> is a subsequence of the list returned for \<open>t\<close>: it is that
  list with the records of \<open>block_length < t'\<close> removed, the others unchanged and in
  the same order.
\<close>

theorem find_leave_suggestions_threshold_monotone:
  assumes "t \<le> t'"
    and "find_leave_suggestions year off_days working_days t = Inr xs"
  shows "\<exists>ys. find_leave_suggestions year off_days working_days t' = Inr ys
           \<and> subseq ys xs
           \<and> ys = filter (\<lambda>s. t' \<le> block_length s) xs"
proof -
  from assms(2) obtain dates where gen: "generate_year_dates year = Inr dates"
    and run: "find_leave_suggestions_loop dates off_days working_days t [] = Inr xs"
    by (auto simp: find_leave_suggestions_def split: sum.splits)
  from loop_threshold_mono [OF assms(1) run, of "[]"] gen show ?thesis
    by (simp add: find_leave_suggestions_def)
qed

theorem find_leave_suggestions_threshold_monotone_witness:
  "(2 :: int) \<le> 3
   \<and> find_leave_suggestions 2023 {738879} [0, 1, 2, 3, 4] 2 =
       Inr [\<lparr>leave_day = 738880, block_start = 738879, block_end = 738880, block_length = 2\<rparr>]
   \<and> find_leave_suggestions 2023 {738879} [0, 1, 2, 3, 4] 3 = Inr []"
  using find_leave_suggestions_threshold_monotone [OF _ example_2023, of 3] example_2023
  by simp

subsection \<open>C6: the calendar generator\<close>

text \<open>
  C6 as stated is about every year. \<^verbatim>\<open>datetime.date\<close> stops at 9999-12-31, and the
  loop of \<open>generate_year_dates\<close> advances \<open>current\<close> once more after appending
  December 31st: for the year 9999 that step raises \<^verbatim>\<open>OverflowError\<close> and no list
  is returned. For a year after 9999 or before 1 the constructor raises
  \<^verbatim>\<open>ValueError\<close>.
\<close>

theorem generate_year_dates_9999_counterexample:
  "generate_year_dates 9999 = Inl OverflowError
   \<and> generate_year_dates 10000 = Inl ValueError
   \<and> generate_year_dates 0 = Inl ValueError"
  by (simp add: generate_year_dates_max_year generate_year_dates_out_of_range fits_c_int_def)

text \<open>
  C6 (amended): for every year \<open>Y\<close> with \<open>1 \<le> Y \<le> 9998\<close>, \<open>generate_year_dates Y\<close>
  returns a list that starts at January 1st of \<open>Y\<close>, ends at December 31st of \<open>Y\<close>,
  holds exactly the dates between the two, is strictly ascending with consecutive
  entries one day apart, and has 366 entries if \<open>Y\<close> is a leap year under the Gregorian
  rule and 365 otherwise.
\<close>

theorem generate_year_dates_correct:
  assumes "1 \<le> year" "year \<le> 9998"
  shows "\<exists>dates. generate_year_dates year = Inr dates
           \<and> date_ymd year 1 1 = Inr (hd dates)
           \<and> date_ymd year 12 31 = Inr (last dates)
           \<and> set dates = {d. hd dates \<le> d \<and> d \<le> last dates}
           \<and> (\<forall>i. Suc i < length dates \<longrightarrow> dates ! Suc i = dates ! i + 1)
           \<and> sorted_wrt (<) dates
           \<and> int (length dates) = (if is_leap year then 366 else 365)"
proof -
  let ?ds = "[first_day year..last_day year]"
  note le = first_day_le_last_day [of year]
  have gen: "generate_year_dates year = Inr ?ds"
    using assms by (rule generate_year_dates_upto)
  have h: "hd ?ds = first_day year" and l: "last ?ds = last_day year"
    using le by (simp_all add: hd_upto last_upto)
  have first: "date_ymd year 1 1 = Inr (hd ?ds)"
    using assms by (simp add: h date_ymd_first)
  have lst: "date_ymd year 12 31 = Inr (last ?ds)"
    using assms by (simp add: l date_ymd_last)
  have mem: "set ?ds = {d. hd ?ds \<le> d \<and> d \<le> last ?ds}"
    unfolding h l by auto
  have step: "\<forall>i. Suc i < length ?ds \<longrightarrow> ?ds ! Suc i = ?ds ! i + 1"
  proof (intro allI impI)
    fix i assume "Suc i < length ?ds"
    then have "first_day year + int (Suc i) \<le> last_day year" by simp
    then show "?ds ! Suc i = ?ds ! i + 1" by simp
  qed
  have len: "int (length ?ds) = (if is_leap year then 366 else 365)"
    by (simp add: first_day_def last_day_def days_before_year_Suc)
  from gen first lst mem step len show ?thesis
    by (intro exI [of _ ?ds] conjI) simp_all
qed

theorem generate_year_dates_correct_witness:
  "(1::int) \<le> 2023 \<and> (2023::int) \<le> 9998
   \<and> (\<exists>dates. generate_year_dates 2023 = Inr dates \<and> hd dates = 738521 \<and> last dates = 738885
         \<and> length dates = 365)"
proof -
  have a: "date_ymd 2023 1 1 = Inr 738521" and b: "date_ymd 2023 12 31 = Inr 738885"
    and c: "\<not> is_leap 2023"
    by (simp_all add: date_ymd_def fits_c_int_def MINYEAR_def MAXYEAR_def days_in_month_def
        days_before_month_def days_before_year_def is_leap_def)
  from generate_year_dates_correct [of 2023] a b c show ?thesis
    by auto
qed

subsection \<open>C7: the caller's off-day set is not changed\<close>

text \<open>
  C7: for every heap, every reference \<open>off_days\<close> to an object of it and every year,
  working-day list and threshold, after \<open>find_leave_suggestions\<close> (whether it returns
  or raises) the object \<open>off_days\<close> refers to holds what it held before, and so does
  every other object that existed before the call. Every call of
  \<open>get_continuous_block\<close> is made for a candidate \<open>d\<close> that is not in the caller's set,
  on an object that did not exist before (one new object per call, allocated in the
  order of the calls) and that holds, at the time of the call, the caller's set with
  \<open>d\<close> added; nothing else is allocated. Every suggestion returned carries the block that
  such a call computed for its leave day. When the scan returns a list, the candidates of
  the calls are, in order, exactly the dates of the year that fall on a working weekday,
  are not in the caller's set and have a neighbour in it: each candidate is judged once.
  The result is the one of \<open>find_leave_suggestions\<close> on the caller's set as a value.
\<close>

theorem find_leave_suggestions_frame:
  assumes "off_days < length h"
    and "find_leave_suggestions_heap h year off_days working_days threshold
           = (h', calls, result)"
  shows "h' ! off_days = h ! off_days
         \<and> take (length h) h' = h
         \<and> drop (length h) h' = map (\<lambda>(d, new_off, hc). h ! off_days \<union> {d}) calls
         \<and> map (\<lambda>(d, new_off, hc). new_off) calls = [length h..<length h']
         \<and> (\<forall>(d, new_off, hc)\<in>set calls.
               d \<notin> h ! off_days \<and> take (length h) hc = h
               \<and> new_off < length hc \<and> hc ! new_off = h ! off_days \<union> {d})
         \<and> (\<forall>suggestions. result = Inr suggestions \<longrightarrow>
               (\<forall>s\<in>set suggestions. \<exists>(d, new_off, hc)\<in>set calls.
                  d = leave_day s
                  \<and> get_continuous_block d (hc ! new_off)
                      = Inr (block_start s, block_end s, block_length s)))
         \<and> (\<forall>dates suggestions.
               generate_year_dates year = Inr dates \<and> result = Inr suggestions \<longrightarrow>
               map (\<lambda>(d, new_off, hc). d) calls
               = filter (\<lambda>d. weekday d \<in> set working_days \<and> d \<notin> h ! off_days
                              \<and> (d - 1 \<in> h ! off_days \<or> d + 1 \<in> h ! off_days)) dates)
         \<and> result = find_leave_suggestions year (h ! off_days) working_days threshold"
proof (cases "generate_year_dates year")
  case (Inl e)
  with assms(2) show ?thesis
    by (auto simp: find_leave_suggestions_heap_def find_leave_suggestions_def)
next
  case (Inr dates)
  with assms(2) have run: "find_leave_suggestions_loop_heap h dates off_days working_days
                        threshold [] [] = (h', calls, result)"
    by (simp add: find_leave_suggestions_heap_def)
  have cands: "\<forall>suggestions. result = Inr suggestions \<longrightarrow>
      map fst calls = filter (\<lambda>d. weekday d \<in> set working_days \<and> d \<notin> h ! off_days
                                 \<and> (d - 1 \<in> h ! off_days \<or> d + 1 \<in> h ! off_days)) dates"
  proof (intro allI impI)
    fix suggestions assume "result = Inr suggestions"
    with run loop_heap_calls [OF assms(1), of dates working_days threshold "[]" "[]" h' calls
        suggestions]
    show "map fst calls = filter (\<lambda>d. weekday d \<in> set working_days \<and> d \<notin> h ! off_days
                                 \<and> (d - 1 \<in> h ! off_days \<or> d + 1 \<in> h ! off_days)) dates"
      by auto
  qed
  from loop_heap [OF assms(1) run] have
    pure: "result = find_leave_suggestions_loop dates (h ! off_days) working_days threshold []"
    and h': "h' = h @ map (\<lambda>c. insert (fst c) (h ! off_days)) calls"
    and refs: "map (\<lambda>c. fst (snd c)) calls = [length h..<length h + length calls]"
    and ok: "\<forall>c\<in>set calls. fst c \<notin> h ! off_days \<and> take (length h) (snd (snd c)) = h
                \<and> fst (snd c) < length (snd (snd c))
                \<and> snd (snd c) ! fst (snd c) = insert (fst c) (h ! off_days)"
    and sug: "\<forall>xs. result = Inr xs \<longrightarrow>
                (\<forall>s\<in>set xs. \<exists>c\<in>set calls. fst c = leave_day s
                    \<and> get_continuous_block (fst c) (snd (snd c) ! fst (snd c))
                        = Inr (block_start s, block_end s, block_length s))"
    by auto
  from h' assms(1) have "h' ! off_days = h ! off_days" "take (length h) h' = h"
    "drop (length h) h' = map (\<lambda>c. insert (fst c) (h ! off_days)) calls"
    "length h' = length h + length calls"
    by (simp_all add: nth_append)
  with pure refs ok sug cands Inr show ?thesis
    by (simp add: find_leave_suggestions_def case_prod_unfold)
qed

theorem find_leave_suggestions_frame_witness:
  "(0 :: nat) < length [{738879 :: date}]
   \<and> (\<exists>h' calls result.
        find_leave_suggestions_heap [{738879}] 2023 0 [0, 1, 2, 3, 4] 2 = (h', calls, result)
        \<and> h' ! 0 = {738879}
        \<and> take 1 h' = [{738879}]
        \<and> result = Inr [\<lparr>leave_day = 738880, block_start = 738879, block_end = 738880,
                          block_length = 2\<rparr>]
        \<and> (\<exists>(d, new_off, hc)\<in>set calls.
              d = 738880 \<and> 1 \<le> new_off \<and> hc ! new_off = {738879} \<union> {738880}))"
proof -
  obtain h' calls result where
    run: "find_leave_suggestions_heap [{738879}] 2023 0 [0, 1, 2, 3, 4] 2 = (h', calls, result)"
    by (cases "find_leave_suggestions_heap [{738879}] 2023 0 [0, 1, 2, 3, 4] 2") auto
  note frame = find_leave_suggestions_frame [OF _ run, simplified]
  from frame example_2023 have result: "result = Inr [\<lparr>leave_day = 738880,
      block_start = 738879, block_end = 738880, block_length = 2\<rparr>]"
    by simp
  with frame obtain c where c: "c \<in> set calls" "fst c = 738880"
    by (auto simp: case_prod_unfold)
  from frame c(1) have "length [{738879 :: date}] \<le> fst (snd c)"
    "snd (snd c) ! fst (snd c) = {738879} \<union> {fst c}"
  proof -
    from frame have "map (\<lambda>(d, new_off, hc). new_off) calls = [1..<length h']" by simp
    then have "set (map (\<lambda>c. fst (snd c)) calls) = {1..<length h'}"
      by (simp add: case_prod_unfold)
    with c(1) show "length [{738879 :: date}] \<le> fst (snd c)" by force
    from frame c(1) show "snd (snd c) ! fst (snd c) = {738879} \<union> {fst c}"
      by (auto simp: case_prod_unfold)
  qed
  with c have "\<exists>(d, new_off, hc)\<in>set calls.
      d = 738880 \<and> 1 \<le> new_off \<and> hc ! new_off = {738879} \<union> {738880}"
    by (auto simp: case_prod_unfold intro!: bexI [of _ c])
  with frame result run show ?thesis by simp
qed

subsection \<open>C8: the scan returns a list\<close>

text \<open>
  C8 as stated promises a list for every valid year and every valid date set. 9999 is
  a valid year of \<^verbatim>\<open>datetime.date\<close>, and there \<open>generate_year_dates\<close>, called first
  by \<open>find_leave_suggestions\<close>, raises \<^verbatim>\<open>OverflowError\<close>. For the year 1 the first
  date scanned, Monday 0001-01-01, is a candidate and \<^verbatim>\<open>d - timedelta(days=1)\<close>
  raises. For the year 2 and the off-day set made of all the dates of the year 1, the
  walk back from 0002-01-01 reaches 0001-01-01 and raises.
\<close>

theorem find_leave_suggestions_max_year_counterexample:
  "find_leave_suggestions 9999 {} [0, 1, 2, 3, 4] 4 = Inl OverflowError
   \<and> find_leave_suggestions 1 {} [0, 1, 2, 3, 4] 4 = Inl OverflowError
   \<and> find_leave_suggestions 2 {1..365} [0, 1, 2, 3, 4] 4 = Inl OverflowError"
proof (intro conjI)
  show "find_leave_suggestions 9999 {} [0, 1, 2, 3, 4] 4 = Inl OverflowError"
    by (simp add: find_leave_suggestions_def generate_year_dates_max_year)
  show "find_leave_suggestions 1 {} [0, 1, 2, 3, 4] 4 = Inl OverflowError"
    by (simp add: find_leave_suggestions_def generate_year_dates_upto first_year_overflow)
  have first: "first_day 2 = 366" by (simp add: first_day_def days_before_year_def)
  have "find_leave_suggestions_body 366 {1..365} [0, 1, 2, 3, 4] 4 = Inl OverflowError"
    by (rule body_overflow_below) (simp_all add: weekday_def valid_date_def MAXORDINAL_def)
  with year_dates_Cons [of 2] first
  show "find_leave_suggestions 2 {1..365} [0, 1, 2, 3, 4] 4 = Inl OverflowError"
    by (simp add: find_leave_suggestions_def generate_year_dates_upto del: upto.simps)
qed

text \<open>
  C8 (amended): for every off-day set, working-day list and integer threshold, also zero
  or negative, \<open>find_leave_suggestions\<close> raises nothing and returns a list exactly when
  the year is from 1 to 9998 and every date of the year that is a working weekday and
  not off has some date before it and some date after it that is not off. In particular
  it returns a list for every year from 1 to 9998 whenever some date before the year and
  some date after the year are not off; and for every year from 1 to 9998 and an empty
  working-day list it returns the empty list.
\<close>

theorem find_leave_suggestions_total:
  "((\<exists>suggestions. find_leave_suggestions year off_days working_days threshold = Inr suggestions)
      \<longleftrightarrow> 1 \<le> year \<and> year \<le> 9998
          \<and> (\<forall>d. in_year year d \<and> weekday d \<in> set working_days \<and> d \<notin> off_days \<longrightarrow>
                (\<exists>lo. valid_date lo \<and> lo < d \<and> lo \<notin> off_days)
                \<and> (\<exists>hi. valid_date hi \<and> d < hi \<and> hi \<notin> off_days)))
   \<and> (1 \<le> year \<and> year \<le> 9998
        \<and> (\<exists>lo. valid_date lo \<and> lo < first_day year \<and> lo \<notin> off_days)
        \<and> (\<exists>hi. valid_date hi \<and> last_day year < hi \<and> hi \<notin> off_days) \<longrightarrow>
      (\<exists>suggestions.
         find_leave_suggestions year off_days working_days threshold = Inr suggestions))
   \<and> (1 \<le> year \<and> year \<le> 9998 \<longrightarrow>
        find_leave_suggestions year off_days [] threshold = Inr [])"
proof (intro conjI impI)
  show "(\<exists>suggestions. find_leave_suggestions year off_days working_days threshold = Inr suggestions)
      \<longleftrightarrow> 1 \<le> year \<and> year \<le> 9998
          \<and> (\<forall>d. in_year year d \<and> weekday d \<in> set working_days \<and> d \<notin> off_days \<longrightarrow>
                (\<exists>lo. valid_date lo \<and> lo < d \<and> lo \<notin> off_days)
                \<and> (\<exists>hi. valid_date hi \<and> d < hi \<and> hi \<notin> off_days))"
    by (rule find_leave_suggestions_returns_iff)
next
  assume a: "1 \<le> year \<and> year \<le> 9998
        \<and> (\<exists>lo. valid_date lo \<and> lo < first_day year \<and> lo \<notin> off_days)
        \<and> (\<exists>hi. valid_date hi \<and> last_day year < hi \<and> hi \<notin> off_days)"
  then obtain lo hi where lo: "valid_date lo" "lo < first_day year" "lo \<notin> off_days"
    and hi: "valid_date hi" "last_day year < hi" "hi \<notin> off_days" by blast
  have "(\<exists>lo. valid_date lo \<and> lo < d \<and> lo \<notin> off_days)
        \<and> (\<exists>hi. valid_date hi \<and> d < hi \<and> hi \<notin> off_days)" if "in_year year d" for d
  proof -
    from that lo(2) hi(2) have "lo < d" "d < hi" by (simp_all add: in_year_def)
    with lo(1,3) hi(1,3) show ?thesis by blast
  qed
  with a show "\<exists>suggestions.
      find_leave_suggestions year off_days working_days threshold = Inr suggestions"
    by (simp add: find_leave_suggestions_returns_iff)
next
  assume "1 \<le> year \<and> year \<le> 9998"
  then have gen: "generate_year_dates year = Inr [first_day year..last_day year]"
    by (simp add: generate_year_dates_upto)
  have "\<forall>d\<in>set [first_day year..last_day year].
          find_leave_suggestions_body d off_days [] threshold = Inr None"
    by (simp add: body_not_working)
  from loop_nothing [OF this, of "[]"] gen
  show "find_leave_suggestions year off_days [] threshold = Inr []"
    by (simp add: find_leave_suggestions_def)
qed

theorem find_leave_suggestions_total_witness:
  "(1 :: int) \<le> 2023 \<and> (2023 :: int) \<le> 9998
   \<and> valid_date 1 \<and> 1 < first_day 2023 \<and> 1 \<notin> {738879 :: date}
   \<and> valid_date MAXORDINAL \<and> last_day 2023 < MAXORDINAL \<and> MAXORDINAL \<notin> {738879 :: date}
   \<and> (\<exists>suggestions. find_leave_suggestions 2023 {738879} [0, 1, 2, 3, 4] (- 1) = Inr suggestions)
   \<and> find_leave_suggestions 2023 {738879} [] 4 = Inr []"
proof -
  have facts: "valid_date 1" "1 < first_day 2023" "valid_date MAXORDINAL"
    "last_day 2023 < MAXORDINAL"
    by (simp_all add: valid_date_def MAXORDINAL_def first_day_def last_day_def
        days_before_year_def)
  then have "(\<exists>lo. valid_date lo \<and> lo < first_day 2023 \<and> lo \<notin> {738879 :: date})
      \<and> (\<exists>hi. valid_date hi \<and> last_day 2023 < hi \<and> hi \<notin> {738879 :: date})"
    by (intro conjI exI [of _ 1] exI [of _ MAXORDINAL]) (simp_all add: MAXORDINAL_def)
  with find_leave_suggestions_total [THEN conjunct2, THEN conjunct1,
      of 2023 "{738879}" "[0, 1, 2, 3, 4]" "- 1"]
  have "\<exists>suggestions. find_leave_suggestions 2023 {738879} [0, 1, 2, 3, 4] (- 1) = Inr suggestions"
    by simp
  moreover from find_leave_suggestions_total [THEN conjunct2, THEN conjunct2,
      of 2023 "{738879}" 4]
  have "find_leave_suggestions 2023 {738879} [] 4 = Inr []" by simp
  ultimately show ?thesis
    using facts by (simp add: MAXORDINAL_def)
qed

subsection \<open>C9: the two scripts compute the same\<close>




subsection \<open>C10: the block returned for any candidate\<close>

text \<open>
  C10 as stated promises a triple for every candidate and every finite set. For the
  candidate 9999-12-31, the last date of \<^verbatim>\<open>datetime.date\<close>, and the empty set,
  \<^verbatim>\<open>nxt = candidate + delta\<close> raises \<^verbatim>\<open>OverflowError\<close>.
\<close>

theorem get_continuous_block_last_date_counterexample:
  "date_ymd 9999 12 31 = Inr 3652059
   \<and> get_continuous_block 3652059 {} = Inl OverflowError"
  by (simp add: date_ymd_def fits_c_int_def MINYEAR_def MAXYEAR_def days_in_month_def days_before_month_def
      days_before_year_def is_leap_def get_continuous_block_def date_sub_def date_add_def
      MAXORDINAL_def expand_backwards.simps)

text \<open>
  C10 (amended): \<open>get_continuous_block\<close> is defined for every candidate and every
  off-day set, finite or not, whether or not the candidate is in the set (both loops
  terminate: the definitions above are total). It either raises \<^verbatim>\<open>OverflowError\<close>
  or returns \<open>(start, end, length)\<close> with \<open>start \<le> candidate \<le> end\<close> and \<open>length\<close> the
  number of days from \<open>start\<close> to \<open>end\<close> plus one; and it returns such a triple whenever
  some date before the candidate and some date after it are not in the set.
\<close>

theorem get_continuous_block_well_formed:
  "(\<forall>start fin len. get_continuous_block candidate off_set = Inr (start, fin, len) \<longrightarrow>
      start \<le> candidate \<and> candidate \<le> fin \<and> len = days_between fin start + 1)
   \<and> (\<forall>err. get_continuous_block candidate off_set = Inl err \<longrightarrow> err = OverflowError)
   \<and> ((\<exists>lo hi. valid_date lo \<and> lo < candidate \<and> lo \<notin> off_set
          \<and> valid_date hi \<and> candidate < hi \<and> hi \<notin> off_set) \<longrightarrow>
       (\<exists>start fin len. get_continuous_block candidate off_set = Inr (start, fin, len)))"
proof (intro conjI allI impI)
  fix start fin len
  assume "get_continuous_block candidate off_set = Inr (start, fin, len)"
  from get_continuous_block_bounds(1-3) [OF this]
  show "start \<le> candidate" "candidate \<le> fin" "len = days_between fin start + 1" .
next
  fix err
  assume "get_continuous_block candidate off_set = Inl err"
  then show "err = OverflowError" by (rule get_continuous_block_error)
next
  assume "\<exists>lo hi. valid_date lo \<and> lo < candidate \<and> lo \<notin> off_set
            \<and> valid_date hi \<and> candidate < hi \<and> hi \<notin> off_set"
  then obtain lo hi where "valid_date lo" "lo < candidate" "lo \<notin> off_set"
    "valid_date hi" "candidate < hi" "hi \<notin> off_set" by blast
  from get_continuous_block_returns [OF this]
  show "\<exists>start fin len. get_continuous_block candidate off_set = Inr (start, fin, len)"
    by blast
qed

theorem get_continuous_block_well_formed_witness:
  "738878 \<notin> {738877, 738879 :: date}
   \<and> valid_date 738876 \<and> 738876 \<notin> {738877, 738879 :: date}
   \<and> valid_date 738880 \<and> 738880 \<notin> {738877, 738879 :: date}
   \<and> (\<exists>start fin len. get_continuous_block 738878 {738877, 738879} = Inr (start, fin, len)
         \<and> start \<le> 738878 \<and> 738878 \<le> fin \<and> len = days_between fin start + 1)"
proof -
  have v: "valid_date 738876" "valid_date 738880"
    by (simp_all add: valid_date_def MAXORDINAL_def)
  then have "\<exists>lo hi. valid_date lo \<and> lo < 738878 \<and> lo \<notin> {738877, 738879 :: date}
      \<and> valid_date hi \<and> 738878 < hi \<and> hi \<notin> {738877, 738879 :: date}"
    by (intro exI [of _ 738876] exI [of _ 738880]) simp
  with get_continuous_block_well_formed [of 738878 "{738877, 738879}"] v show ?thesis
    by auto
qed

end
